theory Spec2Isabelle
  imports Main "HOL-Library.Word"
begin

section \<open>The continuous-discovery engine of the orchestrator logic package\<close>

text \<open>
  The package keeps its state in package-level variables and in the local variables of
  \<^verbatim>\<open>ContinuousDiscovery\<close> that its closures capture. Here they are the fields of one
  record, passed through every operation. Each goroutine body is one function on that
  record: it runs from its first statement to its return without another goroutine in
  between, except for the recovery guard, whose interleavings are a step relation of
  their own.

  Time is a count of nanoseconds on the integers. Values of \<^verbatim>\<open>time.Duration\<close> are 64-bit
  signed, and the two products the source computes on them wrap around as written in
  \<open>int64\<close> below.
\<close>

subsection \<open>Integers and durations\<close>

definition int64 :: "int \<Rightarrow> int" where
  "int64 x = (x + 2 ^ 63) mod 2 ^ 64 - 2 ^ 63"

definition Second :: int where
  "Second = 1000000000"

definition Millisecond :: int where
  "Millisecond = 1000000"

record config =
  InstancePollSeconds :: nat
  shutdownWaitTime :: int
  GrabElection :: bool

text \<open>\<^verbatim>\<open>time.Duration(config.Config.InstancePollSeconds) * time.Second\<close>\<close>

definition instancePollSecondsDuration :: "config \<Rightarrow> int" where
  "instancePollSecondsDuration c = int64 (int64 (int (InstancePollSeconds c)) * Second)"

subsection \<open>Instance keys and the collaborators of package inst\<close>

record InstanceKey =
  Hostname :: string
  Port :: int

record Instance =
  IsUpToDate :: bool
  IsLastCheckValid :: bool

text \<open>
  The probe \<^verbatim>\<open>inst.ReadTopologyInstanceBufferable\<close> returns an instance pointer and an
  error, and it stops the stopwatch named instance that it was handed. A panic inside
  the probe comes back as a nil instance (the comment before the nil test in
  \<^verbatim>\<open>DiscoverInstance\<close>), so nil with an error covers both a failed and a panicked probe.
\<close>

record probe_result =
  probed :: "Instance option"
  probe_err :: "string option"
  instance_elapsed :: int

text \<open>
  The functions of package inst that \<^verbatim>\<open>DiscoverInstance\<close> and \<^verbatim>\<open>onHealthTick\<close> call are
  not part of the sources at hand. They are parameters: one record of functions.
  \<open>IgnoreHostnameMatch\<close> stands for \<^verbatim>\<open>RegexpMatchPatterns\<close> applied to the key's string
  code and the configured ignore filters; \<open>ReadInstance\<close> gives the instance and the found
  flag (its error is discarded by the caller).
\<close>

record inst_pkg =
  InstanceIsForgotten :: "InstanceKey \<Rightarrow> bool"
  IgnoreHostnameMatch :: "InstanceKey \<Rightarrow> bool"
  ResolveHostname :: "InstanceKey \<Rightarrow> InstanceKey"
  IsValid :: "InstanceKey \<Rightarrow> bool"
  DisplayString :: "InstanceKey \<Rightarrow> string"
  ReadInstance :: "InstanceKey \<Rightarrow> Instance \<times> bool"
  ReadTopologyInstanceBufferable :: "InstanceKey \<Rightarrow> probe_result"

subsection \<open>The throttle cache\<close>

text \<open>
  \<^verbatim>\<open>recentDiscoveryOperationKeys\<close> is a cache of the go-cache library. An item carries
  its expiration instant, 0 for none. A lookup misses an item whose expiration is
  positive and lies before now. \<^verbatim>\<open>Add\<close> stores only when the lookup misses and
  reports an error otherwise. A duration of 0 asks for the cache's default expiration,
  a negative one for none. The constructor turns a default of 0 into -1.
\<close>

record cache =
  items :: "string \<rightharpoonup> int"
  defaultExpiration :: int

definition cache_New :: "int \<Rightarrow> cache" where
  "cache_New de = \<lparr>items = Map.empty, defaultExpiration = (if de = 0 then - 1 else de)\<rparr>"

definition cache_get :: "cache \<Rightarrow> string \<Rightarrow> int \<Rightarrow> bool" where
  "cache_get c k now =
     (case items c k of
        None \<Rightarrow> False
      | Some e \<Rightarrow> \<not> (0 < e \<and> e < now))"

definition cache_set :: "cache \<Rightarrow> string \<Rightarrow> int \<Rightarrow> int \<Rightarrow> cache" where
  "cache_set c k d now =
     (let d' = (if d = 0 then defaultExpiration c else d);
          e = (if 0 < d' then now + d' else 0)
      in c\<lparr>items := (items c)(k \<mapsto> e)\<rparr>)"

text \<open>The boolean is True when the item was stored, False for the already-exists error.\<close>

definition cache_Add :: "cache \<Rightarrow> string \<Rightarrow> int \<Rightarrow> int \<Rightarrow> cache \<times> bool" where
  "cache_Add c k d now =
     (if cache_get c k now then (c, False) else (cache_set c k d now, True))"

subsection \<open>Stopwatches\<close>

text \<open>
  One named entry of the stopwatch library: the time accumulated by finished runs and
  the start of the current run, if any. Reading a running stopwatch includes the
  current run.
\<close>

record stopwatch =
  sw_elapsed :: int
  sw_ref :: "int option"

definition sw_new :: stopwatch where
  "sw_new = \<lparr>sw_elapsed = 0, sw_ref = None\<rparr>"

definition sw_Start :: "int \<Rightarrow> stopwatch \<Rightarrow> stopwatch" where
  "sw_Start now w = (case sw_ref w of None \<Rightarrow> w\<lparr>sw_ref := Some now\<rparr> | Some r \<Rightarrow> w)"

definition sw_Stop :: "int \<Rightarrow> stopwatch \<Rightarrow> stopwatch" where
  "sw_Stop now w =
     (case sw_ref w of
        None \<Rightarrow> w
      | Some r \<Rightarrow> \<lparr>sw_elapsed = sw_elapsed w + (now - r), sw_ref = None\<rparr>)"

definition sw_Elapsed :: "int \<Rightarrow> stopwatch \<Rightarrow> int" where
  "sw_Elapsed now w =
     (case sw_ref w of None \<Rightarrow> sw_elapsed w | Some r \<Rightarrow> sw_elapsed w + (now - r))"

subsection \<open>The discovery queue\<close>

text \<open>
  Modelled from the spec: package discovery, whose \<^verbatim>\<open>Queue\<close> type with \<^verbatim>\<open>Push\<close>,
  \<^verbatim>\<open>Consume\<close> and \<^verbatim>\<open>Release\<close> is missing from the sources at hand. The spec's queue
  is bounded and holds pending keys in order and the keys in flight. \<open>Push\<close> enqueues a
  key unless it is pending or in flight, and then is a no-op. On a saturated queue a
  push of a new key does not enqueue: the result is \<open>None\<close>, and waiting or dropping is
  left to the call site. \<open>Consume\<close> is the blocking pop: \<open>None\<close> on an empty queue,
  where the worker waits. \<open>Release\<close> marks a key as no longer in flight.
\<close>

record queue =
  pending :: "InstanceKey list"
  inflight :: "InstanceKey set"
  capacity :: nat

definition CreateOrReturnQueue :: "nat \<Rightarrow> queue" where
  "CreateOrReturnQueue cap = \<lparr>pending = [], inflight = {}, capacity = cap\<rparr>"

definition Push :: "InstanceKey \<Rightarrow> queue \<Rightarrow> queue option" where
  "Push k q =
     (if k \<in> set (pending q) \<or> k \<in> inflight q then Some q
      else if length (pending q) < capacity q then Some (q\<lparr>pending := pending q @ [k]\<rparr>)
      else None)"

definition Consume :: "queue \<Rightarrow> (InstanceKey \<times> queue) option" where
  "Consume q =
     (case pending q of
        [] \<Rightarrow> None
      | k # ks \<Rightarrow> Some (k, q\<lparr>pending := ks, inflight := insert k (inflight q)\<rparr>))"

definition Release :: "InstanceKey \<Rightarrow> queue \<Rightarrow> queue" where
  "Release k q = q\<lparr>inflight := inflight q - {k}\<rparr>"

definition QueueLen :: "queue \<Rightarrow> nat" where
  "QueueLen q = length (pending q)"

text \<open>The number of outstanding entries of a key: pending ones plus the one in flight.\<close>

definition outstanding :: "InstanceKey \<Rightarrow> queue \<Rightarrow> nat" where
  "outstanding k q = count_list (pending q) k + (if k \<in> inflight q then 1 else 0)"

subsection \<open>Observable effects\<close>

text \<open>
  Calls that leave the package (log lines, collaborators, spawned goroutines) are
  appended to a trace in the order the code makes them.
\<close>

datatype level = Debug | Info | Warning | Error

datatype event =
    Logged level string
  | RecentAdd string bool
  | BackendRead InstanceKey
  | Probed InstanceKey
  | Pushed InstanceKey
  | PushBlocked InstanceKey
  | Consumed InstanceKey
  | Released InstanceKey
  | Spawned string
  | Called string
  | ElectionAttempted
  | CheckAndRecover
  | AuditOperation string string
  | StopAutoExpiration
  | Exit int

record Metric =
  Timestamp :: int
  MetricKey :: InstanceKey
  TotalLatency :: int
  BackendLatency :: int
  InstanceLatency :: int
  Err :: "string option"

subsection \<open>The state of the package\<close>

record election =
  isElectedNode :: "64 word"

record engine = election +
  Config :: config
  hasReceivedSIGTERM :: "32 word"
  recoveryEntrance :: "64 word"
  continuousDiscoveryStartTime :: int
  checkAndRecoverWaitPeriod :: int
  recentDiscoveryOperationKeys :: cache
  discoveriesCounter :: int
  failedDiscoveriesCounter :: int
  instancePollSecondsExceededCounter :: int
  discoveryMetrics :: "Metric list"
  discoveryQueue :: queue
  snapshotDiscoveryKeys :: "InstanceKey list"
  trace :: "event list"

definition emit :: "event list \<Rightarrow> engine \<Rightarrow> engine" where
  "emit es s = s\<lparr>trace := trace s @ es\<rparr>"

text \<open>What an operation appended to the trace.\<close>

definition emitted :: "engine \<Rightarrow> engine \<Rightarrow> event list" where
  "emitted s s' = drop (length (trace s)) (trace s')"

definition IsLeader :: "'a election_scheme \<Rightarrow> bool" where
  "IsLeader s = (isElectedNode s = 1)"

definition IsLeaderOrActive :: "'a election_scheme \<Rightarrow> bool" where
  "IsLeaderOrActive s = (isElectedNode s = 1)"

subsection \<open>DiscoverInstance\<close>

text \<open>
  The clock readings of one call, in the order the code takes them, and the answer of
  the log rate limiter \<^verbatim>\<open>util.ClearToLog\<close>.
\<close>

record discover_env =
  t_start :: int
  t_add :: int
  t_backend_start :: int
  t_backend_stop :: int
  t_elapsed :: int
  t_metric :: int
  t_stop :: int
  clearToLog :: bool

text \<open>
  The deferred function: stop the total stopwatch and compare its reading with the
  poll interval.
\<close>

definition discoverDeferred :: "discover_env \<Rightarrow> stopwatch \<Rightarrow> engine \<Rightarrow> engine" where
  "discoverDeferred env total_sw s =
     (let discoveryTime = sw_Elapsed (t_stop env) (sw_Stop (t_stop env) total_sw)
      in if instancePollSecondsDuration (Config s) < discoveryTime
         then emit [Logged Warning ''discoverInstance exceeded InstancePollSeconds'']
                (s\<lparr>instancePollSecondsExceededCounter :=
                     instancePollSecondsExceededCounter s + 1\<rparr>)
         else s)"

text \<open>The statements after the deferred function is registered.\<close>

definition discoverBody ::
  "inst_pkg \<Rightarrow> discover_env \<Rightarrow> stopwatch \<Rightarrow> InstanceKey \<Rightarrow> bool \<Rightarrow> engine \<Rightarrow> engine" where
  "discoverBody I env total_sw instanceKey0 forceDiscovery s =
     (let instanceKey = ResolveHostname I instanceKey0 in
      if \<not> IsValid I instanceKey then s
      else
        let (c, added) = cache_Add (recentDiscoveryOperationKeys s)
                           (DisplayString I instanceKey)
                           (instancePollSecondsDuration (Config s)) (t_add env);
            s1 = emit [RecentAdd (DisplayString I instanceKey) added]
                   (s\<lparr>recentDiscoveryOperationKeys := c\<rparr>)
        in
        if \<not> added \<and> \<not> forceDiscovery then s1
        else
          let backend = sw_Stop (t_backend_stop env) (sw_Start (t_backend_start env) sw_new);
              (instance, found) = ReadInstance I instanceKey;
              s2 = emit [BackendRead instanceKey] s1
          in
          if \<not> forceDiscovery \<and> found \<and> IsUpToDate instance \<and> IsLastCheckValid instance
          then s2
          else
            let s3 = emit [Probed instanceKey]
                       (s2\<lparr>discoveriesCounter := discoveriesCounter s2 + 1\<rparr>);
                r = ReadTopologyInstanceBufferable I instanceKey;
                totalLatency = sw_Elapsed (t_elapsed env) total_sw;
                backendLatency = sw_Elapsed (t_elapsed env) backend;
                instanceLatency = instance_elapsed r
            in
            (case probed r of
               None \<Rightarrow>
                 let s4 = s3\<lparr>failedDiscoveriesCounter := failedDiscoveriesCounter s3 + 1,
                             discoveryMetrics := discoveryMetrics s3 @
                               [\<lparr>Timestamp = t_metric env, MetricKey = instanceKey,
                                 TotalLatency = totalLatency, BackendLatency = backendLatency,
                                 InstanceLatency = instanceLatency, Err = probe_err r\<rparr>]\<rparr>
                 in if clearToLog env
                    then emit [Logged Warning ''DiscoverInstance instance is nil''] s4
                    else s4
             | Some i \<Rightarrow>
                 s3\<lparr>discoveryMetrics := discoveryMetrics s3 @
                      [\<lparr>Timestamp = t_metric env, MetricKey = instanceKey,
                        TotalLatency = totalLatency, BackendLatency = backendLatency,
                        InstanceLatency = instanceLatency, Err = None\<rparr>]\<rparr>))"

definition DiscoverInstance ::
  "inst_pkg \<Rightarrow> discover_env \<Rightarrow> InstanceKey \<Rightarrow> bool \<Rightarrow> engine \<Rightarrow> engine" where
  "DiscoverInstance I env instanceKey forceDiscovery s =
     (if InstanceIsForgotten I instanceKey
      then emit [Logged Debug ''discoverInstance: skipping, set to be forgotten''] s
      else if IgnoreHostnameMatch I instanceKey
      then emit [Logged Debug ''discoverInstance: skipping, matches DiscoveryIgnoreHostnameFilters''] s
      else
        let total_sw = sw_Start (t_start env) sw_new
        in discoverDeferred env total_sw (discoverBody I env total_sw instanceKey forceDiscovery s))"

subsection \<open>The discovery workers\<close>

definition releaseKey :: "InstanceKey \<Rightarrow> engine \<Rightarrow> engine" where
  "releaseKey k s = emit [Released k] (s\<lparr>discoveryQueue := Release k (discoveryQueue s)\<rparr>)"

text \<open>
  One turn of a worker's loop in \<^verbatim>\<open>handleDiscoveryRequests\<close>; \<open>None\<close> when the queue
  is empty and \<^verbatim>\<open>Consume\<close> blocks. The key is passed to \<^verbatim>\<open>DiscoverInstance\<close> by
  value, so the key released is the key consumed.
\<close>

definition workerIteration :: "inst_pkg \<Rightarrow> discover_env \<Rightarrow> engine \<Rightarrow> engine option" where
  "workerIteration I env s =
     (case Consume (discoveryQueue s) of
        None \<Rightarrow> None
      | Some (instanceKey, q) \<Rightarrow>
          let s1 = emit [Consumed instanceKey] (s\<lparr>discoveryQueue := q\<rparr>) in
          if \<not> IsLeaderOrActive s1
          then Some (releaseKey instanceKey
                 (emit [Logged Debug ''Node apparently demoted. Skipping discovery''] s1))
          else Some (releaseKey instanceKey (DiscoverInstance I env instanceKey False s1)))"

subsection \<open>onHealthTick\<close>

text \<open>
  What the collaborators of package process and inst answer during one health tick:
  \<^verbatim>\<open>process.AttemptElection\<close> (a boolean and an error), \<^verbatim>\<open>process.ElectedNode\<close> (the
  active node's host name and an error) and \<^verbatim>\<open>inst.ReadOutdatedInstanceKeys\<close>.
\<close>

record health_env =
  AttemptElection :: "bool \<times> string option"
  ElectedNode :: "string \<times> string option"
  ReadOutdatedInstanceKeys :: "InstanceKey list \<times> string option"

text \<open>
  The loop over the keys of a health tick. A push that finds the queue saturated keeps
  the goroutine at that key; the keys after it are not pushed.
\<close>

fun pushKeys :: "inst_pkg \<Rightarrow> InstanceKey list \<Rightarrow> engine \<Rightarrow> engine" where
  "pushKeys I [] s = s"
| "pushKeys I (k # ks) s =
     (if IsValid I k
      then (case Push k (discoveryQueue s) of
              None \<Rightarrow> emit [PushBlocked k] s
            | Some q \<Rightarrow> pushKeys I ks (emit [Pushed k] (s\<lparr>discoveryQueue := q\<rparr>)))
      else pushKeys I ks s)"

definition logError :: "string option \<Rightarrow> engine \<Rightarrow> engine" where
  "logError err s = (case err of None \<Rightarrow> s | Some e \<Rightarrow> emit [Logged Error e] s)"

definition onHealthTick :: "inst_pkg \<Rightarrow> health_env \<Rightarrow> engine \<Rightarrow> engine" where
  "onHealthTick I h s =
     (let wasAlreadyElected = IsLeader s;
          (myIsElectedNode, err) = AttemptElection h;
          s1 = logError err (emit [ElectionAttempted] s);
          s2 = (if myIsElectedNode then s1\<lparr>isElectedNode := 1\<rparr> else s1\<lparr>isElectedNode := 0\<rparr>);
          s3 = (if \<not> myIsElectedNode
                then (case snd (ElectedNode h) of
                        None \<Rightarrow> emit [Logged Info ''Not elected as active node; polling''] s2
                      | Some e \<Rightarrow>
                          emit [Logged Info ''Not elected as active node; active node: Unable to determine; polling''] s2)
                else s2)
      in
      if \<not> IsLeaderOrActive s3 then s3
      else
        let (instanceKeys, err') = ReadOutdatedInstanceKeys h;
            s4 = logError err' s3;
            s5 = (if \<not> wasAlreadyElected
                  then emit [Spawned ''process.RegisterNode'', Spawned ''inst.ExpireMaintenance''] s4
                  else s4);
            keys = instanceKeys @ snapshotDiscoveryKeys s5
        in pushKeys I keys (s5\<lparr>snapshotDiscoveryKeys := []\<rparr>))"

subsection \<open>The recovery guard\<close>

definition runCheckAndRecoverOperationsTimeRipe :: "int \<Rightarrow> engine \<Rightarrow> bool" where
  "runCheckAndRecoverOperationsTimeRipe now s =
     (checkAndRecoverWaitPeriod s \<le> now - continuousDiscoveryStartTime s)"

text \<open>
  The three parts of the guarded goroutine of the recovery tick: the compare-and-swap
  of \<^verbatim>\<open>recoveryEntrance\<close> from 0 to 1, the statements under the guard, and the
  deferred store of 0.
\<close>

definition guardCAS :: "engine \<Rightarrow> engine \<times> bool" where
  "guardCAS s = (if recoveryEntrance s = 0 then (s\<lparr>recoveryEntrance := 1\<rparr>, True) else (s, False))"

definition guardBody :: "int \<Rightarrow> engine \<Rightarrow> engine" where
  "guardBody now s =
     (if runCheckAndRecoverOperationsTimeRipe now s
      then emit [CheckAndRecover] s
      else emit [Logged Debug ''Waiting before running failure detection/recovery''] s)"

definition guardDeferred :: "engine \<Rightarrow> engine" where
  "guardDeferred s = s\<lparr>recoveryEntrance := 0\<rparr>"

text \<open>The goroutine run without interruption.\<close>

definition recoveryGuarded :: "int \<Rightarrow> engine \<Rightarrow> engine" where
  "recoveryGuarded now s =
     (case guardCAS s of
        (s1, True) \<Rightarrow> guardDeferred (guardBody now s1)
      | (s1, False) \<Rightarrow> s1)"

text \<open>
  Several requests at once. Each request is a goroutine at one of these points: before
  its compare-and-swap, holding the guard before the guarded statements, unwinding
  after them with the deferred store still to run, gone after a failed compare-and-swap,
  or finished after the deferred store. The guarded statements end in one of two ways:
  the wait period has not passed and the request only logs that it waits, or the
  recovery pass is called, which returns or panics. Either way the deferred store runs.
\<close>

datatype pass_outcome = Returned | Panicked

datatype body_end = Waited | Passed pass_outcome

datatype pc = AtCAS | Holding | Unwinding body_end | Skipped | Finished body_end

type_synonym guard_sys = "engine \<times> (nat \<Rightarrow> pc)"

text \<open>
  One atomic step of request \<open>i\<close>, at time \<open>now\<close>, where a recovery pass started in
  this step ends as \<open>out\<close>.
\<close>

definition gstep :: "nat \<Rightarrow> int \<Rightarrow> pass_outcome \<Rightarrow> guard_sys \<Rightarrow> guard_sys" where
  "gstep i now out g =
     (case g of (s, pcs) \<Rightarrow>
        (case pcs i of
           AtCAS \<Rightarrow>
             (case guardCAS s of (s1, ok) \<Rightarrow> (s1, pcs(i := (if ok then Holding else Skipped))))
         | Holding \<Rightarrow>
             (guardBody now s,
              pcs(i := Unwinding
                (if runCheckAndRecoverOperationsTimeRipe now s then Passed out else Waited)))
         | Unwinding b \<Rightarrow> (guardDeferred s, pcs(i := Finished b))
         | Skipped \<Rightarrow> (s, pcs)
         | Finished b \<Rightarrow> (s, pcs)))"

fun grun :: "(nat \<times> int \<times> pass_outcome) list \<Rightarrow> guard_sys \<Rightarrow> guard_sys" where
  "grun [] g = g"
| "grun ((i, now, out) # sch) g = grun sch (gstep i now out g)"

definition inside :: "(nat \<Rightarrow> pc) \<Rightarrow> nat \<Rightarrow> bool" where
  "inside pcs i = (case pcs i of Holding \<Rightarrow> True | Unwinding b \<Rightarrow> True | _ \<Rightarrow> False)"

definition released :: "(nat \<Rightarrow> pc) \<Rightarrow> nat \<Rightarrow> bool" where
  "released pcs i = (case pcs i of Finished b \<Rightarrow> True | _ \<Rightarrow> False)"

text \<open>A request that has called the recovery pass.\<close>

fun ran_pass :: "pc \<Rightarrow> bool" where
  "ran_pass (Unwinding (Passed out)) = True"
| "ran_pass (Finished (Passed out)) = True"
| "ran_pass p = False"

definition passed :: "(nat \<Rightarrow> pc) \<Rightarrow> nat \<Rightarrow> bool" where
  "passed pcs i = ran_pass (pcs i)"

subsection \<open>ContinuousDiscovery\<close>

text \<open>
  The statements before the loop: the start time, the wait period of three poll
  intervals, the throttle cache and the queue. The other variables have the values of
  their declarations.
\<close>

definition ContinuousDiscovery_setup :: "config \<Rightarrow> nat \<Rightarrow> int \<Rightarrow> engine" where
  "ContinuousDiscovery_setup c cap now =
     \<lparr>isElectedNode = 0,
      Config = c,
      hasReceivedSIGTERM = 0,
      recoveryEntrance = 0,
      continuousDiscoveryStartTime = now,
      checkAndRecoverWaitPeriod = int64 (3 * instancePollSecondsDuration c),
      recentDiscoveryOperationKeys = cache_New (instancePollSecondsDuration c),
      discoveriesCounter = 0,
      failedDiscoveriesCounter = 0,
      instancePollSecondsExceededCounter = 0,
      discoveryMetrics = [],
      discoveryQueue = CreateOrReturnQueue cap,
      snapshotDiscoveryKeys = [],
      trace = [Logged Info ''continuous discovery: setting up'',
               Called ''inst.LoadHostnameResolveCache'', Spawned ''handleDiscoveryRequests'',
               Called ''OpenTabletDiscovery'', Spawned ''ometrics.InitMetrics'',
               Spawned ''acceptSignals'', Spawned ''kv.InitKVStores'',
               Called ''reparentutil.SetDurabilityPolicy''] @
              (if GrabElection c then [Called ''process.GrabElection''] else []) @
              [Logged Info ''continuous discovery: starting'']\<rparr>"

definition recoveryTasks :: "event list" where
  "recoveryTasks =
     [Spawned ''ClearActiveFailureDetections'', Spawned ''ClearActiveRecoveries'',
      Spawned ''ExpireBlockedRecoveries'', Spawned ''AcknowledgeCrashedRecoveries'',
      Spawned ''inst.ExpireInstanceAnalysisChangelog'']"

definition caretakingTasks :: "event list" where
  "caretakingTasks =
     [Spawned ''inst.ReviewUnseenInstances'', Spawned ''inst.InjectUnseenPrimaries'',
      Spawned ''inst.ForgetLongUnseenInstances'',
      Spawned ''inst.ForgetUnseenInstancesDifferentlyResolved'',
      Spawned ''inst.ForgetExpiredHostnameResolves'',
      Spawned ''inst.DeleteInvalidHostnameResolves'',
      Spawned ''inst.ResolveUnknownPrimaryHostnameResolves'',
      Spawned ''inst.ExpireMaintenance'', Spawned ''inst.ExpireCandidateInstances'',
      Spawned ''inst.ExpireHostnameUnresolve'', Spawned ''inst.ExpireClusterDomainName'',
      Spawned ''inst.ExpireAudit'', Spawned ''inst.ExpirePoolInstances'',
      Spawned ''inst.FlushNontrivialResolveCacheToDatabase'',
      Spawned ''inst.ExpireStaleInstanceBinlogCoordinates'',
      Spawned ''process.ExpireNodesHistory'', Spawned ''process.ExpireAccessTokens'',
      Spawned ''process.ExpireAvailableNodes'', Spawned ''ExpireFailureDetectionHistory'',
      Spawned ''ExpireTopologyRecoveryHistory'',
      Spawned ''ExpireTopologyRecoveryStepsHistory'']"

datatype tick =
    HealthTick health_env
  | InstancePollTick
  | CaretakingTick int
  | RecoveryTick int
  | SnapshotTopologiesTick
  | TabletTopoTick

text \<open>The goroutine that each case of the select statement starts.\<close>

fun onTick :: "inst_pkg \<Rightarrow> tick \<Rightarrow> engine \<Rightarrow> engine" where
  "onTick I (HealthTick h) s = onHealthTick I h s"
| "onTick I InstancePollTick s =
     (if IsLeaderOrActive s
      then emit [Spawned ''inst.UpdateClusterAliases'', Spawned ''inst.ExpireDowntime'',
                 Spawned ''injectSeeds''] s
      else s)"
| "onTick I (CaretakingTick now) s =
     (if IsLeaderOrActive s
      then (let s1 = emit caretakingTasks s in
            if runCheckAndRecoverOperationsTimeRipe now s1 \<and> IsLeader s1
            then emit [Spawned ''SubmitPrimariesToKvStores''] s1 else s1)
      else emit [Spawned ''inst.LoadHostnameResolveCache''] s)"
| "onTick I (RecoveryTick now) s =
     (if IsLeaderOrActive s then recoveryGuarded now (emit recoveryTasks s) else s)"
| "onTick I SnapshotTopologiesTick s =
     (if IsLeaderOrActive s then emit [Spawned ''inst.SnapshotTopologies''] s else s)"
| "onTick I TabletTopoTick s = emit [Spawned ''RefreshTablets''] s"

fun runTicks :: "inst_pkg \<Rightarrow> tick list \<Rightarrow> engine \<Rightarrow> engine" where
  "runTicks I [] s = s"
| "runTicks I (t # ts) s = runTicks I ts (onTick I t s)"

subsection \<open>acceptSignals\<close>

text \<open>
  The wait of the SIGTERM branch. \<^verbatim>\<open>shardsLockCounter\<close> is written by other goroutines:
  \<open>counter\<close> gives its value at each instant. The timeout channel delivers from
  \<open>deadline\<close> on, and each round sleeps 100 milliseconds. The result tells whether the
  wait timed out and when it ended.
\<close>

function drain :: "(int \<Rightarrow> 32 word) \<Rightarrow> int \<Rightarrow> int \<Rightarrow> bool \<times> int" where
  "drain counter deadline now =
     (if counter now = 0 then (False, now)
      else if deadline \<le> now then (True, now)
      else drain counter deadline (now + 100 * Millisecond))"
  by pat_completeness auto
termination
  by (relation "measure (\<lambda>(counter, deadline, now). nat (deadline - now))")
     (auto simp add: Millisecond_def)

text \<open>The SIGTERM branch, from the signal at \<open>now\<close> to \<^verbatim>\<open>os.Exit\<close>, with the instant of exit.\<close>

definition onSIGTERM :: "(int \<Rightarrow> 32 word) \<Rightarrow> int \<Rightarrow> engine \<Rightarrow> engine \<times> int" where
  "onSIGTERM counter now s =
     (let s1 = emit [Logged Info ''Received SIGTERM. Starting shutdown''] s;
          s2 = s1\<lparr>hasReceivedSIGTERM := 1\<rparr>;
          s3 = emit [StopAutoExpiration, AuditOperation ''shutdown'' ''Triggered via SIGTERM''] s2;
          deadline = now + shutdownWaitTime (Config s3);
          (timedOut, t_exit) = drain counter deadline now;
          s4 = (if timedOut
                then emit [Logged Info ''wait for lock release timed out. Some locks might not have been released.''] s3
                else s3)
      in (emit [Logged Info ''Shutting down orchestrator'', Exit 0] s4, t_exit))"

text \<open>The SIGHUP branch; \<open>c\<close> is the configuration that the reload reads.\<close>

definition onSIGHUP :: "config \<Rightarrow> engine \<Rightarrow> engine" where
  "onSIGHUP c s =
     emit [Called ''discoveryMetrics.SetExpirePeriod'']
       ((emit [Logged Info ''Received SIGHUP. Reloading configuration'',
               AuditOperation ''reload-configuration'' ''Triggered via SIGHUP''] s)
          \<lparr>Config := c\<rparr>)"

subsection \<open>Histories and invariants\<close>

text \<open>
  The queue keeps its pending keys distinct and apart from the keys in flight.
\<close>

definition queue_inv :: "queue \<Rightarrow> bool" where
  "queue_inv q = (distinct (pending q) \<and> set (pending q) \<inter> inflight q = {})"

text \<open>
  Histories of queue operations. A push on a saturated queue and a pop on an empty one
  wait: they leave the queue as it is.
\<close>

datatype queue_op = DoPush InstanceKey | DoConsume | DoRelease InstanceKey

fun queue_step :: "queue_op \<Rightarrow> queue \<Rightarrow> queue" where
  "queue_step (DoPush k) q = (case Push k q of None \<Rightarrow> q | Some q' \<Rightarrow> q')"
| "queue_step DoConsume q = (case Consume q of None \<Rightarrow> q | Some (k, q') \<Rightarrow> q')"
| "queue_step (DoRelease k) q = Release k q"

fun queue_run :: "queue_op list \<Rightarrow> queue \<Rightarrow> queue" where
  "queue_run [] q = q"
| "queue_run (x # xs) q = queue_run xs (queue_step x q)"

text \<open>
  Modelled from the spec: \<^verbatim>\<open>process.AttemptElection\<close>, which is missing from the
  sources at hand. It returns whether this process is now the elected one, or an error:
  an error never comes together with the answer true.
\<close>

definition electionContract :: "health_env \<Rightarrow> bool" where
  "electionContract h = (snd (AttemptElection h) \<noteq> None \<longrightarrow> \<not> fst (AttemptElection h))"

text \<open>An election attempt that returns an error or does not win.\<close>

definition electionFails :: "health_env \<Rightarrow> bool" where
  "electionFails h = (snd (AttemptElection h) \<noteq> None \<or> \<not> fst (AttemptElection h))"

text \<open>
  A tick whose election attempt, if it makes one, keeps the contract and fails.
\<close>

definition electionLost :: "tick \<Rightarrow> bool" where
  "electionLost t =
     (case t of HealthTick h \<Rightarrow> electionContract h \<and> electionFails h | _ \<Rightarrow> True)"

text \<open>A tick that, if it is a recovery tick, fires before the given instant.\<close>

definition recoveryTickBefore :: "int \<Rightarrow> tick \<Rightarrow> bool" where
  "recoveryTickBefore bound t = (case t of RecoveryTick now \<Rightarrow> now < bound | _ \<Rightarrow> True)"

text \<open>
  Between the goroutines of the tick loop the start time and the wait period are as
  set up, and the guard is free.
\<close>

definition guard_idle :: "int \<Rightarrow> int \<Rightarrow> engine \<Rightarrow> bool" where
  "guard_idle t0 w s =
     (continuousDiscoveryStartTime s = t0 \<and> checkAndRecoverWaitPeriod s = w \<and>
      recoveryEntrance s = 0)"

text \<open>
  The invariant of the guard with several requests: at most one request is between a
  successful compare-and-swap and its deferred store, the guard word is 1 exactly
  while there is one, and a request can only have been turned away if some request
  holds or has held the guard.
\<close>

definition guard_inv :: "guard_sys \<Rightarrow> bool" where
  "guard_inv g =
     (case g of (s, pcs) \<Rightarrow>
        (\<forall>i j. inside pcs i \<and> inside pcs j \<longrightarrow> i = j) \<and>
        (recoveryEntrance s = (if \<exists>i. inside pcs i then 1 else 0)) \<and>
        ((\<exists>i. pcs i = Skipped) \<longrightarrow> (\<exists>j. inside pcs j \<or> released pcs j)))"

subsection \<open>Concrete inputs\<close>

text \<open>
  A configuration with a poll interval of five seconds, one key, collaborators that
  answer with a given backend state and a given probe result (an instance, nil with an
  error, or an instance together with an error), and clock readings of a
  call that starts at \<open>t\<close>, reads the total latency for the metric after \<open>d1\<close> and
  returns after \<open>d2\<close>.
\<close>

definition exampleConfig :: config where
  "exampleConfig = \<lparr>InstancePollSeconds = 5, shutdownWaitTime = 5 * Second, GrabElection = False\<rparr>"

definition exampleKey :: InstanceKey where
  "exampleKey = \<lparr>Hostname = ''db1'', Port = 3306\<rparr>"

definition examplePkg :: "Instance \<times> bool \<Rightarrow> probe_result \<Rightarrow> inst_pkg" where
  "examplePkg backend r =
     \<lparr>InstanceIsForgotten = (\<lambda>k. False),
      IgnoreHostnameMatch = (\<lambda>k. False),
      ResolveHostname = (\<lambda>k. k),
      IsValid = (\<lambda>k. Hostname k \<noteq> [] \<and> 0 < Port k),
      DisplayString = Hostname,
      ReadInstance = (\<lambda>k. backend),
      ReadTopologyInstanceBufferable = (\<lambda>k. r)\<rparr>"

definition unseen :: "Instance \<times> bool" where
  "unseen = (\<lparr>IsUpToDate = False, IsLastCheckValid = False\<rparr>, False)"

definition fresh :: "Instance \<times> bool" where
  "fresh = (\<lparr>IsUpToDate = True, IsLastCheckValid = True\<rparr>, True)"

definition probeOK :: "int \<Rightarrow> probe_result" where
  "probeOK d = \<lparr>probed = Some \<lparr>IsUpToDate = True, IsLastCheckValid = True\<rparr>,
                probe_err = None, instance_elapsed = d\<rparr>"

definition probeFailed :: "int \<Rightarrow> probe_result" where
  "probeFailed d = \<lparr>probed = None, probe_err = Some ''connection refused'', instance_elapsed = d\<rparr>"

definition probePartial :: "int \<Rightarrow> probe_result" where
  "probePartial d = \<lparr>probed = Some \<lparr>IsUpToDate = True, IsLastCheckValid = True\<rparr>,
                     probe_err = Some ''partial read'', instance_elapsed = d\<rparr>"

definition exampleEnv :: "int \<Rightarrow> int \<Rightarrow> int \<Rightarrow> discover_env" where
  "exampleEnv t d1 d2 =
     \<lparr>t_start = t, t_add = t, t_backend_start = t, t_backend_stop = t,
      t_elapsed = t + d1, t_metric = t + d1, t_stop = t + d2, clearToLog = True\<rparr>"

definition exampleEngine :: engine where
  "exampleEngine = ContinuousDiscovery_setup exampleConfig 10 (1000 * Second)"

text \<open>
  A health tick that wins the election and finds the example key outdated, one whose
  election attempt fails with an error, and the engine after the first.
\<close>

definition electionWon :: health_env where
  "electionWon = \<lparr>AttemptElection = (True, None), ElectedNode = (''orc1'', None),
                  ReadOutdatedInstanceKeys = ([exampleKey], None)\<rparr>"

definition electionFailed :: health_env where
  "electionFailed = \<lparr>AttemptElection = (False, Some ''election failed''),
                     ElectedNode = ([], Some ''no active node''),
                     ReadOutdatedInstanceKeys = ([], None)\<rparr>"

definition exampleLeader :: engine where
  "exampleLeader = onHealthTick (examplePkg unseen (probeFailed 0)) electionWon exampleEngine"

text \<open>
  A lock counter that stands at 3 until \<open>t_free\<close> and at 0 from then on.
\<close>

definition exampleLocks :: "int \<Rightarrow> int \<Rightarrow> 32 word" where
  "exampleLocks t_free t = (if t < t_free then 3 else 0)"

section \<open>Theorems\<close>

text \<open>
  C9. \<^verbatim>\<open>IsLeader\<close> and \<^verbatim>\<open>IsLeaderOrActive\<close> read the same flag and compare it with the same
  constant: they agree on every state, so no state makes the process active without
  making it leader.
\<close>

theorem IsLeaderOrActive_eq_IsLeader:
  "IsLeaderOrActive s = IsLeader s"
  by (simp add: IsLeader_def IsLeaderOrActive_def)

subsection \<open>DiscoverInstance and the throttle cache\<close>

lemmas discover_defs = DiscoverInstance_def discoverBody_def discoverDeferred_def emit_def
  emitted_def Let_def cache_Add_def

text \<open>
  C10. A non-forced call that gets past the filters and finds no unexpired marker for
  the key's display string appends the marker insertion to the trace before anything
  else, so before the backend read and before the probe. Whatever the backend and the
  probe answer, the marker is then found at every instant \<open>u\<close> up to one poll interval
  after the insertion, and a non-forced call for the key at such an instant, in any
  state that still holds this marker, does not probe.
\<close>

theorem DiscoverInstance_marker_before_probe:
  assumes "\<not> InstanceIsForgotten I k" and "\<not> IgnoreHostnameMatch I k"
    and "IsValid I (ResolveHostname I k)"
    and "d = DisplayString I (ResolveHostname I k)"
    and "\<not> cache_get (recentDiscoveryOperationKeys s) d (t_add env)"
    and "s1 = DiscoverInstance I env k False s"
    and "t_add env \<le> u" and "u \<le> t_add env + instancePollSecondsDuration (Config s)"
    and "items (recentDiscoveryOperationKeys s2) d = items (recentDiscoveryOperationKeys s1) d"
    and "DisplayString I2 (ResolveHostname I2 k) = d" and "t_add env2 = u"
  shows "(\<exists>rest. emitted s s1 = RecentAdd d True # rest) \<and>
         cache_get (recentDiscoveryOperationKeys s1) d u \<and>
         Probed k' \<notin> set (emitted s2 (DiscoverInstance I2 env2 k False s2))"
proof -
  have a: "\<exists>rest. emitted s s1 = RecentAdd d True # rest"
    using assms(1-6) by (auto simp add: discover_defs split: prod.splits option.splits)
  have b: "cache_get (recentDiscoveryOperationKeys s1) d u"
    using assms(1-8)
    by (auto simp add: discover_defs cache_get_def cache_set_def split: prod.splits option.splits)
  have "cache_get (recentDiscoveryOperationKeys s2) d u"
    using b assms(9) by (simp add: cache_get_def)
  then have c: "Probed k' \<notin> set (emitted s2 (DiscoverInstance I2 env2 k False s2))"
    using assms(10,11) by (auto simp add: discover_defs split: prod.splits option.splits)
  show ?thesis
    using a b c by simp
qed

text \<open>
  The theorem at the example engine: a first call at second 1000 whose backend state is
  fresh (no probe), then a call five seconds later, at the end of the poll interval.
\<close>

theorem DiscoverInstance_marker_before_probe_witness:
  "(\<exists>rest. emitted exampleEngine
       (DiscoverInstance (examplePkg fresh (probeOK 0)) (exampleEnv (1000 * Second) 1 2)
          exampleKey False exampleEngine) = RecentAdd ''db1'' True # rest) \<and>
   cache_get (recentDiscoveryOperationKeys
       (DiscoverInstance (examplePkg fresh (probeOK 0)) (exampleEnv (1000 * Second) 1 2)
          exampleKey False exampleEngine)) ''db1'' (1005 * Second) \<and>
   Probed exampleKey \<notin> set (emitted
       (DiscoverInstance (examplePkg fresh (probeOK 0)) (exampleEnv (1000 * Second) 1 2)
          exampleKey False exampleEngine)
       (DiscoverInstance (examplePkg unseen (probeFailed 0)) (exampleEnv (1005 * Second) 1 2)
          exampleKey False
          (DiscoverInstance (examplePkg fresh (probeOK 0)) (exampleEnv (1000 * Second) 1 2)
             exampleKey False exampleEngine)))"
proof -
  let ?I = "examplePkg fresh (probeOK 0)" and ?env = "exampleEnv (1000 * Second) 1 2"
  let ?I2 = "examplePkg unseen (probeFailed 0)" and ?env2 = "exampleEnv (1005 * Second) 1 2"
  have h1: "\<not> InstanceIsForgotten ?I exampleKey" by (simp add: examplePkg_def)
  have h2: "\<not> IgnoreHostnameMatch ?I exampleKey" by (simp add: examplePkg_def)
  have h3: "IsValid ?I (ResolveHostname ?I exampleKey)"
    by (simp add: examplePkg_def exampleKey_def)
  have h4: "''db1'' = DisplayString ?I (ResolveHostname ?I exampleKey)"
    by (simp add: examplePkg_def exampleKey_def)
  have h5: "\<not> cache_get (recentDiscoveryOperationKeys exampleEngine) ''db1'' (t_add ?env)"
    by (simp add: exampleEngine_def ContinuousDiscovery_setup_def cache_New_def cache_get_def)
  have h7: "t_add ?env \<le> 1005 * Second" by (simp add: exampleEnv_def Second_def)
  have h8: "1005 * Second \<le> t_add ?env + instancePollSecondsDuration (Config exampleEngine)"
    by (simp add: exampleEnv_def exampleEngine_def ContinuousDiscovery_setup_def
        exampleConfig_def instancePollSecondsDuration_def int64_def Second_def)
  have h10: "DisplayString ?I2 (ResolveHostname ?I2 exampleKey) = ''db1''"
    by (simp add: examplePkg_def exampleKey_def)
  have h11: "t_add ?env2 = 1005 * Second" by (simp add: exampleEnv_def)
  show ?thesis
    by (rule DiscoverInstance_marker_before_probe [OF h1 h2 h3 h4 h5 refl h7 h8 refl h10 h11])
qed

lemma marker_after_insert:
  assumes "\<not> InstanceIsForgotten I k" and "\<not> IgnoreHostnameMatch I k"
    and "IsValid I (ResolveHostname I k)"
    and "d = DisplayString I (ResolveHostname I k)"
    and "\<not> cache_get (recentDiscoveryOperationKeys s) d (t_add env)"
    and "0 < instancePollSecondsDuration (Config s)"
  shows "items (recentDiscoveryOperationKeys (DiscoverInstance I env k force s)) d
           = Some (t_add env + instancePollSecondsDuration (Config s))"
  using assms
  by (auto simp add: discover_defs cache_set_def split: prod.splits option.splits)

lemma throttled_no_probe:
  assumes "cache_get (recentDiscoveryOperationKeys s) (DisplayString I (ResolveHostname I k)) (t_add env)"
  shows "Probed k' \<notin> set (emitted s (DiscoverInstance I env k False s)) \<and>
         BackendRead k' \<notin> set (emitted s (DiscoverInstance I env k False s))"
  using assms by (auto simp add: discover_defs split: prod.splits option.splits)

lemma unthrottled_probe_iff:
  assumes "\<not> InstanceIsForgotten I k" and "\<not> IgnoreHostnameMatch I k"
    and "IsValid I (ResolveHostname I k)"
    and "\<not> cache_get (recentDiscoveryOperationKeys s) (DisplayString I (ResolveHostname I k)) (t_add env)"
  shows "RecentAdd (DisplayString I (ResolveHostname I k)) True \<in> set (emitted s (DiscoverInstance I env k False s)) \<and>
         BackendRead (ResolveHostname I k) \<in> set (emitted s (DiscoverInstance I env k False s)) \<and>
         (Probed (ResolveHostname I k) \<in> set (emitted s (DiscoverInstance I env k False s)) \<longleftrightarrow>
           \<not> (snd (ReadInstance I (ResolveHostname I k)) \<and>
              IsUpToDate (fst (ReadInstance I (ResolveHostname I k))) \<and>
              IsLastCheckValid (fst (ReadInstance I (ResolveHostname I k)))))"
  using assms by (auto simp add: discover_defs split: prod.splits option.splits)

text \<open>
  C4, as amended. Let a non-forced call at instant \<open>t\<close> (not before the epoch) get
  past the filters and insert the marker, with the poll interval \<open>T > 0\<close> of that moment
  as time to live. In a state that still holds this marker, a non-forced call for the
  key at \<open>t + T / 2\<close> reads no backend state and does not probe. A non-forced call for
  the key at \<open>t + 2 T\<close> that gets past the filters finds the marker expired, inserts a
  new one and reads the backend state; it probes exactly when that state is not fresh
  (not found, or not up to date, or its last check not valid).
\<close>

theorem DiscoverInstance_throttle_window:
  assumes "\<not> InstanceIsForgotten I k" and "\<not> IgnoreHostnameMatch I k"
    and "IsValid I (ResolveHostname I k)"
    and "d = DisplayString I (ResolveHostname I k)"
    and "\<not> cache_get (recentDiscoveryOperationKeys s) d (t_add env)"
    and "T = instancePollSecondsDuration (Config s)" and "0 < T" and "0 \<le> t_add env"
    and "s1 = DiscoverInstance I env k False s"
    and "items (recentDiscoveryOperationKeys s2) d = items (recentDiscoveryOperationKeys s1) d"
    and "DisplayString I2 (ResolveHostname I2 k) = d"
    and "t_add env2 = t_add env + T div 2"
    and "items (recentDiscoveryOperationKeys s3) d = items (recentDiscoveryOperationKeys s1) d"
    and "\<not> InstanceIsForgotten I3 k" and "\<not> IgnoreHostnameMatch I3 k"
    and "IsValid I3 (ResolveHostname I3 k)"
    and "DisplayString I3 (ResolveHostname I3 k) = d"
    and "t_add env3 = t_add env + 2 * T"
  shows "Probed k' \<notin> set (emitted s2 (DiscoverInstance I2 env2 k False s2)) \<and>
         BackendRead k' \<notin> set (emitted s2 (DiscoverInstance I2 env2 k False s2)) \<and>
         RecentAdd d True \<in> set (emitted s3 (DiscoverInstance I3 env3 k False s3)) \<and>
         BackendRead (ResolveHostname I3 k) \<in> set (emitted s3 (DiscoverInstance I3 env3 k False s3)) \<and>
         (Probed (ResolveHostname I3 k) \<in> set (emitted s3 (DiscoverInstance I3 env3 k False s3)) \<longleftrightarrow>
           \<not> (snd (ReadInstance I3 (ResolveHostname I3 k)) \<and>
              IsUpToDate (fst (ReadInstance I3 (ResolveHostname I3 k))) \<and>
              IsLastCheckValid (fst (ReadInstance I3 (ResolveHostname I3 k)))))"
proof -
  have m: "items (recentDiscoveryOperationKeys s1) d = Some (t_add env + T)"
    using marker_after_insert [OF assms(1-5)] assms(6,7,9) by simp
  have "T div 2 \<le> T"
    using assms(7) by presburger
  then have "cache_get (recentDiscoveryOperationKeys s2) d (t_add env2)"
    using m assms(7,10,12) by (simp add: cache_get_def)
  then have half: "Probed k' \<notin> set (emitted s2 (DiscoverInstance I2 env2 k False s2)) \<and>
         BackendRead k' \<notin> set (emitted s2 (DiscoverInstance I2 env2 k False s2))"
    using throttled_no_probe [of s2 I2 k env2 k'] assms(11) by simp
  have "\<not> cache_get (recentDiscoveryOperationKeys s3) d (t_add env3)"
    using m assms(7,8,13,18) by (simp add: cache_get_def)
  then have "\<not> cache_get (recentDiscoveryOperationKeys s3)
               (DisplayString I3 (ResolveHostname I3 k)) (t_add env3)"
    using assms(17) by simp
  from unthrottled_probe_iff [OF assms(14-16) this] half assms(17) show ?thesis
    by simp
qed

text \<open>
  The amended C4 at the example engine, poll interval five seconds: a first call at
  second 1000, a call 2.5 seconds later that does not probe, and a call at second 1010
  on a backend that does not know the instance, which probes.
\<close>

theorem DiscoverInstance_throttle_window_witness:
  "Probed exampleKey \<notin> set (emitted
     (DiscoverInstance (examplePkg unseen (probeOK 0)) (exampleEnv (1000 * Second) 1 2)
        exampleKey False exampleEngine)
     (DiscoverInstance (examplePkg unseen (probeOK 0)) (exampleEnv (1000 * Second + 2500000000) 1 2)
        exampleKey False
        (DiscoverInstance (examplePkg unseen (probeOK 0)) (exampleEnv (1000 * Second) 1 2)
           exampleKey False exampleEngine))) \<and>
   Probed exampleKey \<in> set (emitted
     (DiscoverInstance (examplePkg unseen (probeOK 0)) (exampleEnv (1000 * Second) 1 2)
        exampleKey False exampleEngine)
     (DiscoverInstance (examplePkg unseen (probeOK 0)) (exampleEnv (1010 * Second) 1 2)
        exampleKey False
        (DiscoverInstance (examplePkg unseen (probeOK 0)) (exampleEnv (1000 * Second) 1 2)
           exampleKey False exampleEngine)))"
proof -
  let ?I = "examplePkg unseen (probeOK 0)" and ?env = "exampleEnv (1000 * Second) 1 2"
  let ?env2 = "exampleEnv (1000 * Second + 2500000000) 1 2"
  let ?env3 = "exampleEnv (1010 * Second) 1 2"
  let ?T = "5000000000 :: int"
  have h1: "\<not> InstanceIsForgotten ?I exampleKey" by (simp add: examplePkg_def)
  have h2: "\<not> IgnoreHostnameMatch ?I exampleKey" by (simp add: examplePkg_def)
  have h3: "IsValid ?I (ResolveHostname ?I exampleKey)"
    by (simp add: examplePkg_def exampleKey_def)
  have h4: "''db1'' = DisplayString ?I (ResolveHostname ?I exampleKey)"
    by (simp add: examplePkg_def exampleKey_def)
  have h5: "\<not> cache_get (recentDiscoveryOperationKeys exampleEngine) ''db1'' (t_add ?env)"
    by (simp add: exampleEngine_def ContinuousDiscovery_setup_def cache_New_def cache_get_def)
  have h6: "?T = instancePollSecondsDuration (Config exampleEngine)"
    by (simp add: exampleEngine_def ContinuousDiscovery_setup_def
        exampleConfig_def instancePollSecondsDuration_def int64_def Second_def)
  have h7: "0 < ?T" by simp
  have h8: "0 \<le> t_add ?env" by (simp add: exampleEnv_def Second_def)
  have h12: "t_add ?env2 = t_add ?env + ?T div 2" by (simp add: exampleEnv_def)
  have h18: "t_add ?env3 = t_add ?env + 2 * ?T" by (simp add: exampleEnv_def Second_def)
  have r: "ResolveHostname ?I exampleKey = exampleKey" by (simp add: examplePkg_def)
  have f: "\<not> snd (ReadInstance ?I exampleKey)" by (simp add: examplePkg_def unseen_def)
  show ?thesis
    using DiscoverInstance_throttle_window [OF h1 h2 h3 h4 h5 h6 h7 h8 refl refl
        h4 [symmetric] h12 refl h1 h2 h3 h4 [symmetric] h18, of exampleKey] r f
    by simp
qed

text \<open>
  C4 as stated fails. The first call, at second 1000, inserts the marker and probes.
  The call at second 1010, two poll intervals later, finds the backend state fresh and
  returns without probing.
\<close>

theorem DiscoverInstance_reprobe_counterexample:
  "RecentAdd ''db1'' True \<in> set (emitted exampleEngine
     (DiscoverInstance (examplePkg unseen (probeOK 0)) (exampleEnv (1000 * Second) 1 2)
        exampleKey False exampleEngine)) \<and>
   Probed exampleKey \<in> set (emitted exampleEngine
     (DiscoverInstance (examplePkg unseen (probeOK 0)) (exampleEnv (1000 * Second) 1 2)
        exampleKey False exampleEngine)) \<and>
   t_add (exampleEnv (1010 * Second) 1 2) =
     t_add (exampleEnv (1000 * Second) 1 2) + 2 * instancePollSecondsDuration (Config exampleEngine) \<and>
   Probed exampleKey \<notin> set (emitted
     (DiscoverInstance (examplePkg unseen (probeOK 0)) (exampleEnv (1000 * Second) 1 2)
        exampleKey False exampleEngine)
     (DiscoverInstance (examplePkg fresh (probeOK 0)) (exampleEnv (1010 * Second) 1 2)
        exampleKey False
        (DiscoverInstance (examplePkg unseen (probeOK 0)) (exampleEnv (1000 * Second) 1 2)
           exampleKey False exampleEngine)))"
  by code_simp

subsection \<open>DiscoverInstance and the poll interval\<close>

text \<open>
  C6, as amended. Take a call that gets past the forgotten and ignore filters, where the
  total stopwatch starts, and whose total latency at the deferred stop exceeds the poll
  interval. The deferred function increments the exceeded counter once and logs one
  warning. If the probe was invoked, it was invoked once, exactly one metric was
  appended, it carries the total latency as read right after the probe returned (the
  clock reading \<open>t_elapsed\<close>, taken before the deferred stop) and the probe's error
  when the instance came back nil, and a nil instance adds one to the failure counter.
  The call returns a state in every case.
\<close>

theorem DiscoverInstance_poll_seconds_exceeded:
  assumes "\<not> InstanceIsForgotten I k" and "\<not> IgnoreHostnameMatch I k"
    and "s' = DiscoverInstance I env k force s"
    and "instancePollSecondsDuration (Config s) < t_stop env - t_start env"
    and "r = ReadTopologyInstanceBufferable I (ResolveHostname I k)"
  shows "instancePollSecondsExceededCounter s' = instancePollSecondsExceededCounter s + 1 \<and>
         count_list (emitted s s') (Logged Warning ''discoverInstance exceeded InstancePollSeconds'') = 1 \<and>
         (Probed (ResolveHostname I k) \<in> set (emitted s s') \<longrightarrow>
            count_list (emitted s s') (Probed (ResolveHostname I k)) = 1 \<and>
            (\<exists>m. discoveryMetrics s' = discoveryMetrics s @ [m] \<and>
                 MetricKey m = ResolveHostname I k \<and>
                 TotalLatency m = t_elapsed env - t_start env \<and>
                 Err m = (case probed r of None \<Rightarrow> probe_err r | Some i \<Rightarrow> None)) \<and>
            failedDiscoveriesCounter s' =
              failedDiscoveriesCounter s + (if probed r = None then 1 else 0))"
  using assms
  by (auto simp add: discover_defs sw_new_def sw_Start_def sw_Stop_def sw_Elapsed_def
      split: prod.splits option.splits)

text \<open>
  The amended C6 at the example engine: a probe that fails, read at seven seconds, in a
  call that returns after eight.
\<close>

theorem DiscoverInstance_poll_seconds_exceeded_witness:
  "instancePollSecondsExceededCounter
     (DiscoverInstance (examplePkg unseen (probeFailed (6 * Second)))
        (exampleEnv (1000 * Second) (7 * Second) (8 * Second)) exampleKey False exampleEngine)
     = instancePollSecondsExceededCounter exampleEngine + 1 \<and>
   count_list (emitted exampleEngine
     (DiscoverInstance (examplePkg unseen (probeFailed (6 * Second)))
        (exampleEnv (1000 * Second) (7 * Second) (8 * Second)) exampleKey False exampleEngine))
     (Logged Warning ''discoverInstance exceeded InstancePollSeconds'') = 1 \<and>
   (\<exists>m. discoveryMetrics
       (DiscoverInstance (examplePkg unseen (probeFailed (6 * Second)))
          (exampleEnv (1000 * Second) (7 * Second) (8 * Second)) exampleKey False exampleEngine)
       = discoveryMetrics exampleEngine @ [m] \<and>
      TotalLatency m = 7 * Second \<and> Err m = Some ''connection refused'')"
proof -
  let ?I = "examplePkg unseen (probeFailed (6 * Second))"
  let ?env = "exampleEnv (1000 * Second) (7 * Second) (8 * Second)"
  have h1: "\<not> InstanceIsForgotten ?I exampleKey" by (simp add: examplePkg_def)
  have h2: "\<not> IgnoreHostnameMatch ?I exampleKey" by (simp add: examplePkg_def)
  have h4: "instancePollSecondsDuration (Config exampleEngine) < t_stop ?env - t_start ?env"
    by (simp add: exampleEngine_def ContinuousDiscovery_setup_def exampleEnv_def
        exampleConfig_def instancePollSecondsDuration_def int64_def Second_def)
  have r: "ResolveHostname ?I exampleKey = exampleKey" by (simp add: examplePkg_def)
  have p: "Probed exampleKey \<in> set (emitted exampleEngine
             (DiscoverInstance ?I ?env exampleKey False exampleEngine))"
    by code_simp
  have e: "probed (ReadTopologyInstanceBufferable ?I exampleKey) = None"
    "probe_err (ReadTopologyInstanceBufferable ?I exampleKey) = Some ''connection refused''"
    "t_elapsed ?env - t_start ?env = 7 * Second"
    by (simp_all add: examplePkg_def probeFailed_def exampleEnv_def)
  show ?thesis
    using DiscoverInstance_poll_seconds_exceeded [where force = False, OF h1 h2 refl h4 refl] r p e
    by auto
qed

text \<open>
  C6 as stated fails. With a poll interval of five seconds, the total latency read for
  the metric is four seconds and the total latency at the deferred stop is six: the
  exceeded counter goes up by one, and the one metric of the attempt carries a total
  latency that is not greater than the poll interval. And when the probe returns an
  instance together with an error, the metric carries no error.
\<close>

theorem DiscoverInstance_metric_latency_counterexample:
  "instancePollSecondsDuration (Config exampleEngine)
     < t_stop (exampleEnv (1000 * Second) (4 * Second) (6 * Second))
       - t_start (exampleEnv (1000 * Second) (4 * Second) (6 * Second)) \<and>
   Probed exampleKey \<in> set (emitted exampleEngine
     (DiscoverInstance (examplePkg unseen (probeOK (3 * Second)))
        (exampleEnv (1000 * Second) (4 * Second) (6 * Second)) exampleKey False exampleEngine)) \<and>
   instancePollSecondsExceededCounter
     (DiscoverInstance (examplePkg unseen (probeOK (3 * Second)))
        (exampleEnv (1000 * Second) (4 * Second) (6 * Second)) exampleKey False exampleEngine) = 1 \<and>
   map TotalLatency (discoveryMetrics
     (DiscoverInstance (examplePkg unseen (probeOK (3 * Second)))
        (exampleEnv (1000 * Second) (4 * Second) (6 * Second)) exampleKey False exampleEngine))
     = [4 * Second] \<and>
   \<not> instancePollSecondsDuration (Config exampleEngine) < 4 * Second \<and>
   probe_err (probePartial (3 * Second)) \<noteq> None \<and>
   map Err (discoveryMetrics
     (DiscoverInstance (examplePkg unseen (probePartial (3 * Second)))
        (exampleEnv (1000 * Second) (4 * Second) (6 * Second)) exampleKey False exampleEngine))
     = [None]"
  by code_simp

subsection \<open>The discovery queue\<close>

lemma queue_inv_new: "queue_inv (CreateOrReturnQueue cap)"
  by (simp add: queue_inv_def CreateOrReturnQueue_def)

lemma queue_inv_step: "queue_inv q \<Longrightarrow> queue_inv (queue_step x q)"
  by (cases x)
     (auto simp add: queue_inv_def Push_def Consume_def Release_def
       split: option.splits list.splits if_splits)

lemma queue_inv_run: "queue_inv q \<Longrightarrow> queue_inv (queue_run xs q)"
  by (induction xs arbitrary: q) (simp_all add: queue_inv_step)

lemma count_list_distinct: "distinct xs \<Longrightarrow> count_list xs k = (if k \<in> set xs then 1 else 0)"
  by (induction xs) auto

lemma outstanding_le_one: "queue_inv q \<Longrightarrow> outstanding k q \<le> 1"
  by (auto simp add: queue_inv_def outstanding_def count_list_distinct)

lemma outstanding_Push:
  "queue_inv q \<Longrightarrow> Push k q = Some q1 \<Longrightarrow> outstanding k q1 = 1 \<and> Push k q1 = Some q1"
  by (auto simp add: queue_inv_def outstanding_def Push_def count_list_distinct
      split: if_splits)

lemma outstanding_step_keeps:
  "queue_inv q \<Longrightarrow> outstanding k q = 1 \<Longrightarrow> x \<noteq> DoRelease k \<Longrightarrow>
   outstanding k (queue_step x q) = 1"
  by (cases x)
     (auto simp add: queue_inv_def outstanding_def Push_def Consume_def Release_def
       count_list_distinct split: option.splits list.splits if_splits)

lemma outstanding_run_keeps:
  "queue_inv q \<Longrightarrow> outstanding k q = 1 \<Longrightarrow> DoRelease k \<notin> set xs \<Longrightarrow>
   outstanding k (queue_run xs q) = 1"
  by (induction xs arbitrary: q) (auto simp add: queue_inv_step outstanding_step_keeps)

lemma Push_noop_outstanding:
  "outstanding k q = 1 \<Longrightarrow> Push k q = Some q"
  using count_list_0_iff [of "pending q" k]
  by (auto simp add: outstanding_def Push_def split: if_splits)

text \<open>
  C2. In every queue \<open>q\<close> that a history of pushes, pops and releases builds from the
  empty queue, no key has more than one outstanding entry. After a push of \<open>k\<close> that
  returns, \<open>k\<close> has exactly one outstanding entry and a second push of \<open>k\<close> returns
  the queue unchanged. This stays so through any further history \<open>ys\<close> that does not
  release \<open>k\<close>.
\<close>

theorem Push_twice_one_entry:
  assumes "q = queue_run xs (CreateOrReturnQueue cap)"
    and "Push k q = Some q1"
    and "DoRelease k \<notin> set ys" and "q2 = queue_run ys q1"
  shows "outstanding k' q \<le> 1 \<and> outstanding k q1 = 1 \<and> Push k q1 = Some q1 \<and>
         outstanding k q2 = 1 \<and> Push k q2 = Some q2"
proof -
  have i: "queue_inv q"
    using assms(1) by (simp add: queue_inv_run queue_inv_new)
  have a: "outstanding k q1 = 1 \<and> Push k q1 = Some q1"
    using i assms(2) by (rule outstanding_Push)
  have "queue_inv q1"
    using queue_inv_step [OF i, of "DoPush k"] assms(2) by simp
  then have "outstanding k q2 = 1"
    using a assms(3,4) by (simp add: outstanding_run_keeps)
  then show ?thesis
    using outstanding_le_one [OF i, of k'] a by (simp add: Push_noop_outstanding)
qed

text \<open>
  C2 on the empty queue of capacity 10: the example key is pushed, then consumed by a
  worker, and a push while it is in flight changes nothing.
\<close>

theorem Push_twice_one_entry_witness:
  "outstanding exampleKey (CreateOrReturnQueue 10) \<le> 1 \<and>
   outstanding exampleKey \<lparr>pending = [exampleKey], inflight = {}, capacity = 10\<rparr> = 1 \<and>
   Push exampleKey \<lparr>pending = [exampleKey], inflight = {}, capacity = 10\<rparr>
     = Some \<lparr>pending = [exampleKey], inflight = {}, capacity = 10\<rparr> \<and>
   outstanding exampleKey
     (queue_run [DoConsume] \<lparr>pending = [exampleKey], inflight = {}, capacity = 10\<rparr>) = 1 \<and>
   Push exampleKey
     (queue_run [DoConsume] \<lparr>pending = [exampleKey], inflight = {}, capacity = 10\<rparr>)
     = Some (queue_run [DoConsume] \<lparr>pending = [exampleKey], inflight = {}, capacity = 10\<rparr>)"
proof -
  have h1: "CreateOrReturnQueue 10 = queue_run [] (CreateOrReturnQueue 10)"
    by simp
  have h2: "Push exampleKey (CreateOrReturnQueue 10)
              = Some \<lparr>pending = [exampleKey], inflight = {}, capacity = 10\<rparr>"
    by (simp add: Push_def CreateOrReturnQueue_def)
  have h3: "DoRelease exampleKey \<notin> set [DoConsume]"
    by simp
  show ?thesis
    by (rule Push_twice_one_entry [OF h1 h2 h3 refl])
qed

subsection \<open>The discovery workers\<close>

lemma trace_DiscoverInstance:
  "\<exists>es. trace (DiscoverInstance I env k force s) = trace s @ es \<and>
        (\<forall>k'. Released k' \<notin> set es \<and> Consumed k' \<notin> set es)"
  by (auto simp add: discover_defs split: prod.splits option.splits)

text \<open>
  C3. A turn of the worker loop that gets a key from the queue consumes one key \<open>k\<close>
  and calls Release on \<open>k\<close> once and on no other key, as its last action, so \<open>k\<close> is
  not in flight afterwards. This holds whether the process is active or not and
  whatever the probe answers (an instance, or nil with an error after a failure or a
  panic inside the probe). A process that is not active does not probe.
\<close>

theorem workerIteration_releases_once:
  assumes "workerIteration I env s = Some s'"
  shows "\<exists>k q. Consume (discoveryQueue s) = Some (k, q) \<and>
           count_list (emitted s s') (Consumed k) = 1 \<and>
           count_list (emitted s s') (Released k) = 1 \<and>
           (\<forall>k'. k' \<noteq> k \<longrightarrow> count_list (emitted s s') (Released k') = 0) \<and>
           last (emitted s s') = Released k \<and>
           k \<notin> inflight (discoveryQueue s') \<and>
           (\<not> IsLeaderOrActive s \<longrightarrow> (\<forall>k'. Probed k' \<notin> set (emitted s s')))"
proof -
  from assms obtain k q where c: "Consume (discoveryQueue s) = Some (k, q)"
    by (auto simp add: workerIteration_def split: option.splits)
  let ?s1 = "emit [Consumed k] (s\<lparr>discoveryQueue := q\<rparr>)"
  show ?thesis
  proof (cases "IsLeaderOrActive s")
    case False
    then have "s' = releaseKey k
        (emit [Logged Debug ''Node apparently demoted. Skipping discovery''] ?s1)"
      using assms c by (simp add: workerIteration_def Let_def IsLeaderOrActive_def emit_def)
    then show ?thesis
      using c False by (auto simp add: releaseKey_def emit_def emitted_def Release_def)
  next
    case True
    then have s': "s' = releaseKey k (DiscoverInstance I env k False ?s1)"
      using assms c by (simp add: workerIteration_def Let_def IsLeaderOrActive_def emit_def)
    obtain es where es: "trace (DiscoverInstance I env k False ?s1) = trace ?s1 @ es"
      "\<forall>k'. Released k' \<notin> set es \<and> Consumed k' \<notin> set es"
      using trace_DiscoverInstance by blast
    have "emitted s s' = Consumed k # es @ [Released k]"
      using s' es(1) by (simp add: releaseKey_def emit_def emitted_def)
    moreover have "k \<notin> inflight (discoveryQueue s')"
      using s' by (simp add: releaseKey_def emit_def Release_def)
    ultimately show ?thesis
      using c True es(2) by auto
  qed
qed

text \<open>
  C3 on the engine that has just become leader, with the example key pending and a
  probe that fails.
\<close>

theorem workerIteration_releases_once_witness:
  "\<exists>s'. workerIteration (examplePkg unseen (probeFailed 0)) (exampleEnv (1001 * Second) 1 2)
           exampleLeader = Some s' \<and>
        count_list (emitted exampleLeader s') (Released exampleKey) = 1 \<and>
        last (emitted exampleLeader s') = Released exampleKey \<and>
        exampleKey \<notin> inflight (discoveryQueue s')"
proof -
  let ?I = "examplePkg unseen (probeFailed 0)" and ?env = "exampleEnv (1001 * Second) 1 2"
  have "map_option fst (Consume (discoveryQueue exampleLeader)) = Some exampleKey"
    by code_simp
  then obtain q where q: "Consume (discoveryQueue exampleLeader) = Some (exampleKey, q)"
    by (cases "Consume (discoveryQueue exampleLeader)") auto
  then have "workerIteration ?I ?env exampleLeader \<noteq> None"
    by (simp add: workerIteration_def Let_def)
  then obtain s' where s': "workerIteration ?I ?env exampleLeader = Some s'"
    by auto
  from workerIteration_releases_once [OF s'] q s' show ?thesis
    by auto
qed

subsection \<open>The election flag and the recovery tick\<close>

lemma IsLeader_onHealthTick_lost:
  "\<not> fst (AttemptElection h) \<Longrightarrow>
   \<not> IsLeader (onHealthTick I h s) \<and>
   (\<exists>es. trace (onHealthTick I h s) = trace s @ es \<and> CheckAndRecover \<notin> set es)"
  by (auto simp add: onHealthTick_def IsLeader_def IsLeaderOrActive_def Let_def emit_def
      logError_def split: prod.splits option.splits)

lemma electionFails_not_won:
  "electionContract h \<Longrightarrow> electionFails h \<Longrightarrow> \<not> fst (AttemptElection h)"
  by (auto simp add: electionContract_def electionFails_def)

lemma onTick_not_leader:
  assumes "\<not> IsLeader s" and "electionLost t"
  shows "\<not> IsLeader (onTick I t s) \<and>
         (\<exists>es. trace (onTick I t s) = trace s @ es \<and> CheckAndRecover \<notin> set es)"
proof (cases t)
  case (HealthTick h)
  then have "\<not> fst (AttemptElection h)"
    using assms(2) by (simp add: electionLost_def electionFails_not_won)
  then show ?thesis
    using HealthTick IsLeader_onHealthTick_lost [of h I s] by simp
qed (use assms in \<open>auto simp add: IsLeader_def IsLeaderOrActive_def emit_def\<close>)

lemma runTicks_not_leader:
  assumes "\<not> IsLeader s" and "\<forall>t \<in> set ts. electionLost t"
  shows "\<not> IsLeader (runTicks I ts s) \<and>
         (\<exists>es. trace (runTicks I ts s) = trace s @ es \<and> CheckAndRecover \<notin> set es)"
  using assms
proof (induction ts arbitrary: s)
  case Nil
  then show ?case by simp
next
  case (Cons t ts)
  from onTick_not_leader [of s t I] Cons.prems
  obtain es where 1: "\<not> IsLeader (onTick I t s)" "trace (onTick I t s) = trace s @ es"
    "CheckAndRecover \<notin> set es"
    by auto
  from Cons.IH [OF 1(1)] Cons.prems(2)
  obtain es' where 2: "\<not> IsLeader (runTicks I ts (onTick I t s))"
    "trace (runTicks I ts (onTick I t s)) = trace (onTick I t s) @ es'"
    "CheckAndRecover \<notin> set es'"
    by auto
  show ?case
    using 1 2 by simp
qed

text \<open>
  C5. The election attempt keeps its contract: an error never comes with the answer
  true. After a health tick whose attempt returns an error or does not win, \<open>IsLeader\<close>
  is false, whatever it was before the tick. From a state that is not leader, through
  any sequence of ticks whose election attempts all fail, \<open>IsLeader\<close> is false after
  every tick of the sequence and no recovery pass is invoked, however many recovery
  ticks fire.
\<close>

theorem onHealthTick_lost_election:
  assumes "electionContract h" and "electionFails h"
    and "\<not> IsLeader s0" and "\<forall>t \<in> set ts. electionLost t"
  shows "\<not> IsLeader (onHealthTick I h s) \<and>
         \<not> IsLeader (runTicks I (take n ts) s0) \<and>
         \<not> IsLeader (runTicks I ts s0) \<and>
         CheckAndRecover \<notin> set (emitted s0 (runTicks I ts s0))"
proof -
  have "\<forall>t \<in> set (take n ts). electionLost t"
    using assms(4) by (meson in_set_takeD)
  then have "\<not> IsLeader (runTicks I (take n ts) s0)"
    using runTicks_not_leader [OF assms(3), of "take n ts" I] by simp
  then show ?thesis
    using IsLeader_onHealthTick_lost [OF electionFails_not_won [OF assms(1,2)], of I s]
      runTicks_not_leader [OF assms(3,4), of I]
    by (auto simp add: emitted_def)
qed

text \<open>
  C5 at the example: a leader loses the flag at an attempt that fails with an error,
  and three such attempts in a row, each followed by a recovery tick, leave the process
  not leader after the first pair and at the end, with no recovery pass.
\<close>

theorem onHealthTick_lost_election_witness:
  "IsLeader exampleLeader \<and>
   \<not> IsLeader (onHealthTick (examplePkg unseen (probeOK 0)) electionFailed exampleLeader) \<and>
   \<not> IsLeader (runTicks (examplePkg unseen (probeOK 0))
       (take 2 [HealthTick electionFailed, RecoveryTick (1100 * Second),
        HealthTick electionFailed, RecoveryTick (1200 * Second),
        HealthTick electionFailed, RecoveryTick (1300 * Second)]) exampleEngine) \<and>
   \<not> IsLeader (runTicks (examplePkg unseen (probeOK 0))
       [HealthTick electionFailed, RecoveryTick (1100 * Second),
        HealthTick electionFailed, RecoveryTick (1200 * Second),
        HealthTick electionFailed, RecoveryTick (1300 * Second)] exampleEngine) \<and>
   CheckAndRecover \<notin> set (emitted exampleEngine
     (runTicks (examplePkg unseen (probeOK 0))
       [HealthTick electionFailed, RecoveryTick (1100 * Second),
        HealthTick electionFailed, RecoveryTick (1200 * Second),
        HealthTick electionFailed, RecoveryTick (1300 * Second)] exampleEngine))"
proof -
  have h1: "electionContract electionFailed"
    by (simp add: electionContract_def electionFailed_def)
  have h2: "electionFails electionFailed"
    by (simp add: electionFails_def electionFailed_def)
  have h3: "\<not> IsLeader exampleEngine"
    by (simp add: IsLeader_def exampleEngine_def ContinuousDiscovery_setup_def)
  have h4: "\<forall>t \<in> set [HealthTick electionFailed, RecoveryTick (1100 * Second),
        HealthTick electionFailed, RecoveryTick (1200 * Second),
        HealthTick electionFailed, RecoveryTick (1300 * Second)]. electionLost t"
    by (simp add: electionLost_def h1 h2)
  have l: "IsLeader exampleLeader"
    by code_simp
  show ?thesis
    using l onHealthTick_lost_election [OF h1 h2 h3 h4,
        where I = "examplePkg unseen (probeOK 0)" and s = exampleLeader and n = 2]
    by blast
qed

subsection \<open>The wait before the first recovery pass\<close>

lemma guard_idle_pushKeys: "guard_idle t0 w (pushKeys I ks s) = guard_idle t0 w s"
  by (induction ks arbitrary: s) (auto simp add: guard_idle_def emit_def split: option.splits)

lemma trace_pushKeys:
  "\<exists>es. trace (pushKeys I ks s) = trace s @ es \<and> CheckAndRecover \<notin> set es"
proof (induction ks arbitrary: s)
  case Nil
  then show ?case by simp
next
  case (Cons k ks)
  show ?case
  proof (cases "IsValid I k")
    case False
    then show ?thesis using Cons.IH [of s] by simp
  next
    case True
    show ?thesis
    proof (cases "Push k (discoveryQueue s)")
      case None
      then show ?thesis using True by (simp add: emit_def)
    next
      case (Some q)
      from Cons.IH [of "emit [Pushed k] (s\<lparr>discoveryQueue := q\<rparr>)"]
      show ?thesis using True Some by (auto simp add: emit_def)
    qed
  qed
qed

lemma trace_emit: "trace (emit es s) = trace s @ es"
  by (simp add: emit_def)

lemma guard_idle_emit: "guard_idle t0 w (emit es s) = guard_idle t0 w s"
  by (simp add: guard_idle_def emit_def)

lemma guard_idle_isElectedNode: "guard_idle t0 w (s\<lparr>isElectedNode := x\<rparr>) = guard_idle t0 w s"
  by (simp add: guard_idle_def)

lemma guard_idle_snapshot: "guard_idle t0 w (s\<lparr>snapshotDiscoveryKeys := x\<rparr>) = guard_idle t0 w s"
  by (simp add: guard_idle_def)

lemma no_pass_in_tasks:
  "CheckAndRecover \<notin> set caretakingTasks" "CheckAndRecover \<notin> set recoveryTasks"
  by (simp_all add: caretakingTasks_def recoveryTasks_def)

lemma onHealthTick_guard_idle:
  "guard_idle t0 w (onHealthTick I h s) = guard_idle t0 w s"
  by (simp add: onHealthTick_def Let_def logError_def guard_idle_pushKeys guard_idle_emit
      guard_idle_isElectedNode guard_idle_snapshot split: prod.splits option.splits)

lemma onHealthTick_trace:
  "\<exists>es. trace (onHealthTick I h s) = trace s @ es \<and> CheckAndRecover \<notin> set es"
proof -
  have *: "\<exists>es. trace (pushKeys I ks s1) = trace s @ es \<and> CheckAndRecover \<notin> set es"
    if "trace s1 = trace s @ es1" "CheckAndRecover \<notin> set es1" for ks s1 es1
    using trace_pushKeys [of I ks s1] that by auto
  show ?thesis
    by (auto simp add: onHealthTick_def Let_def logError_def trace_emit
        split: prod.splits option.splits intro!: *)
qed

lemma recoveryGuarded_before:
  assumes "guard_idle t0 w s" and "now < t0 + w"
  shows "recoveryGuarded now s =
           emit [Logged Debug ''Waiting before running failure detection/recovery''] s"
  using assms
  by (simp add: guard_idle_def recoveryGuarded_def guardCAS_def guardBody_def guardDeferred_def
      runCheckAndRecoverOperationsTimeRipe_def emit_def)

lemma onTick_before:
  assumes "guard_idle t0 w s" and "recoveryTickBefore (t0 + w) t"
  shows "guard_idle t0 w (onTick I t s) \<and>
         (\<exists>es. trace (onTick I t s) = trace s @ es \<and> CheckAndRecover \<notin> set es)"
proof (cases t)
  case (HealthTick h)
  then show ?thesis
    using assms(1) onHealthTick_guard_idle [of t0 w I h s] onHealthTick_trace [of I h s] by simp
next
  case (RecoveryTick now)
  then have "now < t0 + w"
    using assms(2) by (simp add: recoveryTickBefore_def)
  then show ?thesis
    using assms(1) RecoveryTick
    by (simp add: recoveryGuarded_before guard_idle_emit trace_emit no_pass_in_tasks)
qed (use assms in \<open>simp_all add: guard_idle_emit trace_emit no_pass_in_tasks Let_def\<close>)

lemma runTicks_before:
  assumes "guard_idle t0 w s" and "\<forall>t \<in> set ts. recoveryTickBefore (t0 + w) t"
  shows "guard_idle t0 w (runTicks I ts s) \<and>
         (\<exists>es. trace (runTicks I ts s) = trace s @ es \<and> CheckAndRecover \<notin> set es)"
  using assms
proof (induction ts arbitrary: s)
  case Nil
  then show ?case by simp
next
  case (Cons t ts)
  from onTick_before [of t0 w s t I] Cons.prems
  obtain es where 1: "guard_idle t0 w (onTick I t s)" "trace (onTick I t s) = trace s @ es"
    "CheckAndRecover \<notin> set es"
    by auto
  from Cons.IH [OF 1(1)] Cons.prems(2)
  obtain es' where 2: "guard_idle t0 w (runTicks I ts (onTick I t s))"
    "trace (runTicks I ts (onTick I t s)) = trace (onTick I t s) @ es'"
    "CheckAndRecover \<notin> set es'"
    by auto
  show ?case
    using 1 2 by simp
qed

lemma setup_wait_period:
  assumes "InstancePollSeconds c \<le> 3074457345"
  shows "checkAndRecoverWaitPeriod (ContinuousDiscovery_setup c cap t0)
           = 3 * (int (InstancePollSeconds c) * Second)"
proof -
  have "int (InstancePollSeconds c) \<le> 3074457345"
    using assms by simp
  then show ?thesis
    by (simp add: ContinuousDiscovery_setup_def instancePollSecondsDuration_def int64_def
        Second_def)
qed

text \<open>
  C7. The engine is set up at \<open>t0\<close> with a poll interval whose triple fits a 64-bit
  duration (at most 3074457345 seconds), and runs any sequence of ticks whose recovery
  ticks all fire before \<open>t0\<close> plus three poll intervals. A recovery tick that then
  fires at \<open>now\<close>, still before that instant, leaves a trace without any recovery
  pass and the guard free; if the process is active, the tick starts its five tasks,
  takes the guard, logs that it is waiting, and releases the guard.
\<close>

theorem recovery_waits_three_poll_intervals:
  assumes "InstancePollSeconds c \<le> 3074457345"
    and "s0 = ContinuousDiscovery_setup c cap t0"
    and "bound = t0 + 3 * (int (InstancePollSeconds c) * Second)"
    and "\<forall>t \<in> set ts. recoveryTickBefore bound t"
    and "s = runTicks I ts s0" and "now < bound"
    and "s' = onTick I (RecoveryTick now) s"
  shows "CheckAndRecover \<notin> set (trace s') \<and> recoveryEntrance s' = 0 \<and>
         (IsLeaderOrActive s \<longrightarrow>
            emitted s s' = recoveryTasks @
              [Logged Debug ''Waiting before running failure detection/recovery''])"
proof -
  let ?w = "3 * (int (InstancePollSeconds c) * Second)"
  have i0: "guard_idle t0 ?w s0"
    using setup_wait_period [OF assms(1), of cap t0] assms(2)
    by (simp add: guard_idle_def ContinuousDiscovery_setup_def)
  have t0: "CheckAndRecover \<notin> set (trace s0)"
    using assms(2) by (simp add: ContinuousDiscovery_setup_def)
  from runTicks_before [OF i0, of ts I] assms(3,4,5)
  obtain es where 1: "guard_idle t0 ?w s" "trace s = trace s0 @ es" "CheckAndRecover \<notin> set es"
    by auto
  have 2: "recoveryGuarded now (emit recoveryTasks s) =
        emit [Logged Debug ''Waiting before running failure detection/recovery'']
          (emit recoveryTasks s)"
    using 1(1) assms(3,6) by (simp add: recoveryGuarded_before guard_idle_emit)
  show ?thesis
    using 1 2 t0 assms(7)
    by (auto simp add: trace_emit emitted_def no_pass_in_tasks guard_idle_def emit_def)
qed

text \<open>
  C7 at the example engine, set up at second 1000 with a poll interval of five seconds:
  the process becomes leader, a recovery tick fires at second 1005 and another at
  second 1014.
\<close>

theorem recovery_waits_three_poll_intervals_witness:
  "CheckAndRecover \<notin> set (trace
     (onTick (examplePkg unseen (probeOK 0)) (RecoveryTick (1014 * Second))
        (runTicks (examplePkg unseen (probeOK 0))
           [HealthTick electionWon, RecoveryTick (1005 * Second)] exampleEngine))) \<and>
   recoveryEntrance
     (onTick (examplePkg unseen (probeOK 0)) (RecoveryTick (1014 * Second))
        (runTicks (examplePkg unseen (probeOK 0))
           [HealthTick electionWon, RecoveryTick (1005 * Second)] exampleEngine)) = 0 \<and>
   emitted
     (runTicks (examplePkg unseen (probeOK 0))
        [HealthTick electionWon, RecoveryTick (1005 * Second)] exampleEngine)
     (onTick (examplePkg unseen (probeOK 0)) (RecoveryTick (1014 * Second))
        (runTicks (examplePkg unseen (probeOK 0))
           [HealthTick electionWon, RecoveryTick (1005 * Second)] exampleEngine))
     = recoveryTasks @ [Logged Debug ''Waiting before running failure detection/recovery'']"
proof -
  let ?I = "examplePkg unseen (probeOK 0)"
  let ?ts = "[HealthTick electionWon, RecoveryTick (1005 * Second)]"
  have h1: "InstancePollSeconds exampleConfig \<le> 3074457345"
    by (simp add: exampleConfig_def)
  have h2: "exampleEngine = ContinuousDiscovery_setup exampleConfig 10 (1000 * Second)"
    by (simp add: exampleEngine_def)
  have h3: "1015 * Second = 1000 * Second + 3 * (int (InstancePollSeconds exampleConfig) * Second)"
    by (simp add: exampleConfig_def)
  have h4: "\<forall>t \<in> set ?ts. recoveryTickBefore (1015 * Second) t"
    by (simp add: recoveryTickBefore_def Second_def)
  have h6: "1014 * Second < 1015 * Second"
    by (simp add: Second_def)
  have l: "IsLeaderOrActive (runTicks ?I ?ts exampleEngine)"
    by code_simp
  show ?thesis
    using recovery_waits_three_poll_intervals [where I = ?I, OF h1 h2 h3 h4 refl h6 refl] l
    by blast
qed

subsection \<open>The recovery guard under concurrent requests\<close>

lemma guard_inv_init: "recoveryEntrance s0 = 0 \<Longrightarrow> guard_inv (s0, \<lambda>i. AtCAS)"
  by (simp add: guard_inv_def inside_def)

lemma recoveryEntrance_guardBody: "recoveryEntrance (guardBody now s) = recoveryEntrance s"
  by (simp add: guardBody_def emit_def)

lemma inside_upd:
  "inside (pcs(i := Holding)) a \<longleftrightarrow> a = i \<or> inside pcs a"
  "inside (pcs(i := Unwinding b)) a \<longleftrightarrow> a = i \<or> inside pcs a"
  "inside (pcs(i := Skipped)) a \<longleftrightarrow> a \<noteq> i \<and> inside pcs a"
  "inside (pcs(i := Finished b)) a \<longleftrightarrow> a \<noteq> i \<and> inside pcs a"
  by (auto simp add: inside_def)

lemma released_upd:
  "released (pcs(i := Holding)) a \<longleftrightarrow> a \<noteq> i \<and> released pcs a"
  "released (pcs(i := Unwinding b)) a \<longleftrightarrow> a \<noteq> i \<and> released pcs a"
  "released (pcs(i := Skipped)) a \<longleftrightarrow> a \<noteq> i \<and> released pcs a"
  "released (pcs(i := Finished b)) a \<longleftrightarrow> a = i \<or> released pcs a"
  by (auto simp add: released_def)

lemma guard_inv_gstep:
  assumes "guard_inv g"
  shows "guard_inv (gstep i now out g)"
proof -
  obtain s pcs where g: "g = (s, pcs)"
    by (cases g)
  from assms g have mx: "\<And>a b. inside pcs a \<Longrightarrow> inside pcs b \<Longrightarrow> a = b"
    and fl: "recoveryEntrance s = (if \<exists>i. inside pcs i then 1 else 0)"
    and sk: "(\<exists>i. pcs i = Skipped) \<Longrightarrow> (\<exists>j. inside pcs j \<or> released pcs j)"
    by (auto simp add: guard_inv_def)
  show ?thesis
  proof (cases "pcs i")
    case AtCAS
    then have ni: "\<not> inside pcs i" "\<not> released pcs i"
      by (simp_all add: inside_def released_def)
    show ?thesis
    proof (cases "\<exists>a. inside pcs a")
      case True
      then have one: "recoveryEntrance s = 1" using fl by simp
      then have "gstep i now out g = (s, pcs(i := Skipped))"
        using g AtCAS by (simp add: gstep_def guardCAS_def)
      moreover have "guard_inv (s, pcs(i := Skipped))"
      proof -
        from True obtain a where a: "inside pcs a" by blast
        then have "a \<noteq> i" using ni by auto
        then have "\<exists>x. inside (pcs(i := Skipped)) x"
          using a by (auto simp add: inside_upd)
        moreover have "\<exists>j. inside (pcs(i := Skipped)) j \<or> released (pcs(i := Skipped)) j"
          using calculation by blast
        moreover have "\<And>x y. inside (pcs(i := Skipped)) x \<Longrightarrow>
            inside (pcs(i := Skipped)) y \<Longrightarrow> x = y"
          using mx by (simp add: inside_upd)
        ultimately show ?thesis
          using one unfolding guard_inv_def by auto
      qed
      ultimately show ?thesis by simp
    next
      case False
      then have "recoveryEntrance s = 0" using fl by simp
      then have "gstep i now out g = (s\<lparr>recoveryEntrance := 1\<rparr>, pcs(i := Holding))"
        using g AtCAS by (simp add: gstep_def guardCAS_def)
      moreover have "guard_inv (s\<lparr>recoveryEntrance := 1\<rparr>, pcs(i := Holding))"
        using False by (simp add: guard_inv_def inside_upd released_upd) blast
      ultimately show ?thesis by simp
    qed
  next
    case Holding
    then have ii: "inside pcs i" by (simp add: inside_def)
    let ?p = "Unwinding (if runCheckAndRecoverOperationsTimeRipe now s then Passed out else Waited)"
    have "gstep i now out g = (guardBody now s, pcs(i := ?p))"
      using g Holding by (simp add: gstep_def)
    moreover have "guard_inv (guardBody now s, pcs(i := ?p))"
      using ii mx fl sk Holding
      by (simp add: guard_inv_def inside_upd released_upd recoveryEntrance_guardBody) blast
    ultimately show ?thesis by simp
  next
    case (Unwinding b)
    then have ii: "inside pcs i" by (simp add: inside_def)
    then have only: "\<And>a. inside pcs a \<Longrightarrow> a = i" using mx by blast
    have "gstep i now out g = (guardDeferred s, pcs(i := Finished b))"
      using g Unwinding by (simp add: gstep_def)
    moreover have "guard_inv (guardDeferred s, pcs(i := Finished b))"
      using only by (simp add: guard_inv_def inside_upd released_upd guardDeferred_def) blast
    ultimately show ?thesis by simp
  next
    case Skipped
    then show ?thesis using assms g by (simp add: gstep_def)
  next
    case (Finished b)
    then show ?thesis using assms g by (simp add: gstep_def)
  qed
qed

lemma guard_inv_grun: "guard_inv g \<Longrightarrow> guard_inv (grun sch g)"
  by (induction sch g rule: grun.induct) (simp_all add: guard_inv_gstep)

lemma passed_upd:
  "{a. passed (pcs(i := p)) a} =
     (if ran_pass p then insert i {a. passed pcs a} else {a. passed pcs a} - {i})"
  by (auto simp add: passed_def)

lemma pass_count_gstep:
  assumes "finite {a. passed pcs a}" and "trace s = pre @ es"
    and "count_list es CheckAndRecover = card {a. passed pcs a}"
    and "gstep i now out (s, pcs) = (s', pcs')"
  shows "finite {a. passed pcs' a} \<and>
         (\<exists>es'. trace s' = pre @ es' \<and> count_list es' CheckAndRecover = card {a. passed pcs' a})"
proof (cases "pcs i")
  case AtCAS
  then have n: "i \<notin> {a. passed pcs a}" by (simp add: passed_def)
  have "trace s' = trace s" "pcs' = pcs(i := Holding) \<or> pcs' = pcs(i := Skipped)"
    using assms(4) AtCAS by (auto simp add: gstep_def guardCAS_def split: if_splits)
  then show ?thesis
    using assms(1-3) n by (auto simp add: passed_upd)
next
  case Holding
  then have n: "i \<notin> {a. passed pcs a}" by (simp add: passed_def)
  show ?thesis
  proof (cases "runCheckAndRecoverOperationsTimeRipe now s")
    case True
    then have "trace s' = trace s @ [CheckAndRecover]" "pcs' = pcs(i := Unwinding (Passed out))"
      using assms(4) Holding by (auto simp add: gstep_def guardBody_def emit_def)
    then show ?thesis
      using assms(1-3) n by (simp add: passed_upd)
  next
    case False
    then have "trace s' = trace s @ [Logged Debug ''Waiting before running failure detection/recovery'']"
      "pcs' = pcs(i := Unwinding Waited)"
      using assms(4) Holding by (auto simp add: gstep_def guardBody_def emit_def)
    then show ?thesis
      using assms(1-3) n by (simp add: passed_upd)
  qed
next
  case (Unwinding b)
  then have p: "passed pcs i = ran_pass (Finished b)"
    by (cases b) (simp_all add: passed_def)
  have "trace s' = trace s" "pcs' = pcs(i := Finished b)"
    using assms(4) Unwinding by (auto simp add: gstep_def guardDeferred_def)
  then show ?thesis
    using assms(1-3) p by (auto simp add: passed_upd insert_absorb)
next
  case Skipped
  then show ?thesis using assms by (auto simp add: gstep_def)
next
  case (Finished b)
  then show ?thesis using assms by (auto simp add: gstep_def)
qed

lemma pass_count_grun:
  assumes "finite {a. passed pcs a}" and "trace s = pre @ es"
    and "count_list es CheckAndRecover = card {a. passed pcs a}"
    and "grun sch (s, pcs) = (s', pcs')"
  shows "\<exists>es'. trace s' = pre @ es' \<and> count_list es' CheckAndRecover = card {a. passed pcs' a}"
  using assms
proof (induction sch arbitrary: s pcs es)
  case Nil
  then show ?case by simp
next
  case (Cons x sch)
  obtain i now out where x: "x = (i, now, out)"
    by (cases x)
  obtain s1 pcs1 where g: "gstep i now out (s, pcs) = (s1, pcs1)"
    by (cases "gstep i now out (s, pcs)")
  from pass_count_gstep [OF Cons.prems(1-3) g]
  obtain es1 where 1: "finite {a. passed pcs1 a}" "trace s1 = pre @ es1"
    "count_list es1 CheckAndRecover = card {a. passed pcs1 a}"
    by blast
  have "grun sch (s1, pcs1) = (s', pcs')"
    using Cons.prems(4) x g by simp
  from Cons.IH [OF 1 this] show ?case .
qed

lemma pass_count_init:
  assumes "grun sch (s0, \<lambda>i. AtCAS) = (s, pcs)"
  shows "count_list (emitted s0 s) CheckAndRecover = card {a. passed pcs a}"
proof -
  have f: "finite {a. passed (\<lambda>i. AtCAS) a}"
    and c: "count_list [] CheckAndRecover = card {a. passed (\<lambda>i. AtCAS) a}"
    by (simp_all add: passed_def)
  have t: "trace s0 = trace s0 @ []"
    by simp
  have "\<exists>es'. trace s = trace s0 @ es' \<and> count_list es' CheckAndRecover = card {a. passed pcs a}"
    by (rule pass_count_grun [OF f t c assms])
  then show ?thesis
    by (auto simp add: emitted_def)
qed


text \<open>
  C1. Start with the guard word at 0 and any number of recovery requests, each before
  its compare-and-swap, and let them take atomic steps in any order. In every state
  reached: at most one request is inside the guard, and the guard word is 1 exactly
  then; the recovery passes in the trace since the start are as many as the requests
  that called one under the guard. If two requests \<open>i\<close> and \<open>j\<close> are the only ones
  that have left their compare-and-swap and neither has yet run its deferred store,
  one of them is inside and the other was turned away. If \<open>i\<close> and \<open>j\<close> are the only
  ones that have moved and \<open>j\<close> was turned away, then \<open>i\<close> holds or has held the
  guard and the trace has one recovery pass if \<open>i\<close> has called it and none otherwise.
  A request that tries while another is inside changes nothing but its own return. The
  holder's guarded statements call the recovery pass when the wait period has passed
  and log the wait otherwise, and end in the unwinding state with the guard word still
  1, whether the pass returns or panics. The deferred store then sets the word to 0
  and leaves no request inside, and a request \<open>k\<close> that comes next takes the guard.
\<close>

theorem recovery_guard_non_reentrant:
  assumes "recoveryEntrance s0 = 0" and "grun sch (s0, \<lambda>i. AtCAS) = (s, pcs)"
  shows "(inside pcs i \<and> inside pcs j \<longrightarrow> i = j) \<and>
    recoveryEntrance s = (if \<exists>a. inside pcs a then 1 else 0) \<and>
    count_list (emitted s0 s) CheckAndRecover = card {a. passed pcs a} \<and>
    (i \<noteq> j \<and> pcs i \<noteq> AtCAS \<and> pcs j \<noteq> AtCAS \<and> \<not> released pcs i \<and> \<not> released pcs j \<and>
       (\<forall>k. k \<noteq> i \<and> k \<noteq> j \<longrightarrow> pcs k = AtCAS) \<longrightarrow>
       (inside pcs i \<and> pcs j = Skipped) \<or> (pcs i = Skipped \<and> inside pcs j)) \<and>
    (i \<noteq> j \<and> pcs j = Skipped \<and> (\<forall>k. k \<noteq> i \<and> k \<noteq> j \<longrightarrow> pcs k = AtCAS) \<longrightarrow>
       (inside pcs i \<or> released pcs i) \<and>
       count_list (emitted s0 s) CheckAndRecover = (if passed pcs i then 1 else 0)) \<and>
    (inside pcs i \<and> pcs j = AtCAS \<longrightarrow> gstep j now out (s, pcs) = (s, pcs(j := Skipped))) \<and>
    (pcs i = Holding \<and> gstep i now out (s, pcs) = (s', pcs') \<longrightarrow>
       recoveryEntrance s' = 1 \<and>
       emitted s s' =
         (if runCheckAndRecoverOperationsTimeRipe now s then [CheckAndRecover]
          else [Logged Debug ''Waiting before running failure detection/recovery'']) \<and>
       pcs' i = Unwinding (if runCheckAndRecoverOperationsTimeRipe now s then Passed out else Waited)) \<and>
    (pcs i = Unwinding b \<and> gstep i now out (s, pcs) = (s'', pcs'') \<longrightarrow>
       recoveryEntrance s'' = 0 \<and> (\<forall>a. \<not> inside pcs'' a) \<and> released pcs'' i \<and>
       (pcs'' k = AtCAS \<longrightarrow>
          inside (snd (gstep k now' out' (s'', pcs''))) k \<and>
          recoveryEntrance (fst (gstep k now' out' (s'', pcs''))) = 1))"
proof -
  have inv: "guard_inv (s, pcs)"
    using guard_inv_grun [OF guard_inv_init [OF assms(1)], of sch] assms(2) by simp
  then have mx: "\<And>a b. inside pcs a \<Longrightarrow> inside pcs b \<Longrightarrow> a = b"
    and fl: "recoveryEntrance s = (if \<exists>a. inside pcs a then 1 else 0)"
    and sk: "(\<exists>a. pcs a = Skipped) \<Longrightarrow> (\<exists>b. inside pcs b \<or> released pcs b)"
    by (auto simp add: guard_inv_def)
  have cnt: "count_list (emitted s0 s) CheckAndRecover = card {a. passed pcs a}"
    using assms(2) by (rule pass_count_init)
  have a: "inside pcs i \<and> inside pcs j \<longrightarrow> i = j"
    using mx by blast
  have b: "(inside pcs i \<and> pcs j = Skipped) \<or> (pcs i = Skipped \<and> inside pcs j)"
    if h: "i \<noteq> j" "pcs i \<noteq> AtCAS" "pcs j \<noteq> AtCAS" "\<not> released pcs i" "\<not> released pcs j"
      "\<forall>k. k \<noteq> i \<and> k \<noteq> j \<longrightarrow> pcs k = AtCAS"
  proof -
    have ci: "pcs i = Skipped \<or> inside pcs i"
      using h(2,4) by (cases "pcs i") (auto simp add: released_def inside_def)
    have cj: "pcs j = Skipped \<or> inside pcs j"
      using h(3,5) by (cases "pcs j") (auto simp add: released_def inside_def)
    have "\<not> (inside pcs i \<and> inside pcs j)"
      using mx h(1) by blast
    moreover have "\<not> (pcs i = Skipped \<and> pcs j = Skipped)"
    proof
      assume both: "pcs i = Skipped \<and> pcs j = Skipped"
      then obtain m where m: "inside pcs m \<or> released pcs m"
        using sk by blast
      then have "pcs m \<noteq> AtCAS" "pcs m \<noteq> Skipped"
        by (auto simp add: inside_def released_def)
      then show False
        using both h(6) by metis
    qed
    ultimately show ?thesis
      using ci cj by blast
  qed
  have b2: "(inside pcs i \<or> released pcs i) \<and>
       count_list (emitted s0 s) CheckAndRecover = (if passed pcs i then 1 else 0)"
    if h: "i \<noteq> j" "pcs j = Skipped" "\<forall>k. k \<noteq> i \<and> k \<noteq> j \<longrightarrow> pcs k = AtCAS"
  proof -
    obtain m where m: "inside pcs m \<or> released pcs m"
      using sk h(2) by blast
    then have "pcs m \<noteq> AtCAS" "pcs m \<noteq> Skipped"
      by (auto simp add: inside_def released_def)
    then have "m = i"
      using h(2,3) by metis
    then have w: "inside pcs i \<or> released pcs i"
      using m by simp
    have "\<not> passed pcs k" if "k \<noteq> i" for k
    proof (cases "k = j")
      case True
      then show ?thesis using h(2) by (simp add: passed_def)
    next
      case False
      then have "pcs k = AtCAS" using h(3) that by blast
      then show ?thesis by (simp add: passed_def)
    qed
    then have sub: "{a. passed pcs a} \<subseteq> {i}"
      by blast
    have "card {a. passed pcs a} = (if passed pcs i then 1 else 0)"
    proof (cases "passed pcs i")
      case True
      then have "{a. passed pcs a} = {i}"
        using sub by blast
      then show ?thesis
        using True by simp
    next
      case False
      then have "{a. passed pcs a} = {}"
        using sub by blast
      then show ?thesis
        using False by simp
    qed
    then show ?thesis
      using w cnt by simp
  qed
  have c: "gstep j now out (s, pcs) = (s, pcs(j := Skipped))"
    if "inside pcs i" "pcs j = AtCAS"
  proof -
    have "recoveryEntrance s = 1"
      using fl that(1) by auto
    then show ?thesis
      using that(2) by (simp add: gstep_def guardCAS_def)
  qed
  have d: "recoveryEntrance s' = 1 \<and>
       emitted s s' =
         (if runCheckAndRecoverOperationsTimeRipe now s then [CheckAndRecover]
          else [Logged Debug ''Waiting before running failure detection/recovery'']) \<and>
       pcs' i = Unwinding (if runCheckAndRecoverOperationsTimeRipe now s then Passed out else Waited)"
    if "pcs i = Holding" "gstep i now out (s, pcs) = (s', pcs')"
  proof -
    have "inside pcs i"
      using that(1) by (simp add: inside_def)
    then have "recoveryEntrance s = 1"
      using fl by auto
    then show ?thesis
      using that by (auto simp add: gstep_def guardBody_def emit_def emitted_def)
  qed
  have e: "recoveryEntrance s'' = 0 \<and> (\<forall>a. \<not> inside pcs'' a) \<and> released pcs'' i \<and>
       (pcs'' k = AtCAS \<longrightarrow>
          inside (snd (gstep k now' out' (s'', pcs''))) k \<and>
          recoveryEntrance (fst (gstep k now' out' (s'', pcs''))) = 1)"
    if "pcs i = Unwinding b" "gstep i now out (s, pcs) = (s'', pcs'')"
  proof -
    have ii: "inside pcs i"
      using that(1) by (simp add: inside_def)
    then have only: "\<And>a. inside pcs a \<Longrightarrow> a = i"
      using mx by blast
    have r: "s'' = s\<lparr>recoveryEntrance := 0\<rparr>" "pcs'' = pcs(i := Finished b)"
      using that by (auto simp add: gstep_def guardDeferred_def)
    have n: "\<forall>a. \<not> inside pcs'' a"
      using only r(2) by (auto simp add: inside_upd)
    show ?thesis
      using r n by (auto simp add: released_upd gstep_def guardCAS_def inside_def)
  qed
  show ?thesis
    using a fl cnt b b2 c d e by blast
qed

text \<open>
  C1 on the example leader, after the wait period: request 0 takes the guard, request 1
  tries while 0 is inside and is turned away, request 0 runs the recovery pass and its
  deferred store. The trace has one recovery pass and the guard word is 0; request 2
  then takes the guard.
\<close>

theorem recovery_guard_non_reentrant_witness:
  "count_list (emitted exampleLeader
      (fst (grun [(0, 2000 * Second, Returned), (1, 2000 * Second, Returned),
                  (0, 2000 * Second, Returned), (0, 2000 * Second, Returned)]
              (exampleLeader, \<lambda>i. AtCAS)))) CheckAndRecover = 1 \<and>
   snd (grun [(0, 2000 * Second, Returned), (1, 2000 * Second, Returned),
              (0, 2000 * Second, Returned), (0, 2000 * Second, Returned)]
          (exampleLeader, \<lambda>i. AtCAS)) 1 = Skipped \<and>
   released (snd (grun [(0, 2000 * Second, Returned), (1, 2000 * Second, Returned),
                        (0, 2000 * Second, Returned), (0, 2000 * Second, Returned)]
                    (exampleLeader, \<lambda>i. AtCAS))) 0 \<and>
   recoveryEntrance (fst (grun [(0, 2000 * Second, Returned), (1, 2000 * Second, Returned),
                                (0, 2000 * Second, Returned), (0, 2000 * Second, Returned)]
                            (exampleLeader, \<lambda>i. AtCAS))) = 0 \<and>
   inside (snd (gstep 2 (2000 * Second) Returned
      (grun [(0, 2000 * Second, Returned), (1, 2000 * Second, Returned),
             (0, 2000 * Second, Returned), (0, 2000 * Second, Returned)]
         (exampleLeader, \<lambda>i. AtCAS)))) 2 \<and>
   recoveryEntrance (fst (gstep 2 (2000 * Second) Returned
      (grun [(0, 2000 * Second, Returned), (1, 2000 * Second, Returned),
             (0, 2000 * Second, Returned), (0, 2000 * Second, Returned)]
         (exampleLeader, \<lambda>i. AtCAS)))) = 1"
proof -
  let ?t = "2000 * Second"
  let ?G0 = "(exampleLeader, \<lambda>i::nat. AtCAS)"
  let ?G3 = "grun [(0, ?t, Returned), (1, ?t, Returned), (0, ?t, Returned)] ?G0"
  let ?G4 = "grun [(0, ?t, Returned), (1, ?t, Returned), (0, ?t, Returned), (0, ?t, Returned)] ?G0"
  have h1: "recoveryEntrance exampleLeader = 0"
    by code_simp
  have "runCheckAndRecoverOperationsTimeRipe ?t exampleLeader"
    by code_simp
  then have rp: "runCheckAndRecoverOperationsTimeRipe ?t (exampleLeader\<lparr>recoveryEntrance := 1\<rparr>)"
    by (simp add: runCheckAndRecoverOperationsTimeRipe_def)
  have p3: "grun [(0, ?t, Returned), (1, ?t, Returned), (0, ?t, Returned)] ?G0 = (fst ?G3, snd ?G3)"
    and p4: "grun [(0, ?t, Returned), (1, ?t, Returned), (0, ?t, Returned), (0, ?t, Returned)] ?G0
               = (fst ?G4, snd ?G4)"
    by simp_all
  have f1: "snd ?G4 1 = Skipped"
    and f2: "\<forall>k. k \<noteq> 0 \<and> k \<noteq> 1 \<longrightarrow> snd ?G4 k = AtCAS"
    and f3: "passed (snd ?G4) 0"
    and f5: "snd ?G3 0 = Unwinding (Passed Returned)"
    and f4: "gstep 0 ?t Returned (fst ?G3, snd ?G3) = (fst ?G4, snd ?G4)"
    using h1 rp by (simp_all add: gstep_def guardCAS_def passed_def)
  have f6: "snd ?G4 2 = AtCAS"
    using f2 by simp
  have n: "(0::nat) \<noteq> 1"
    by simp
  from recovery_guard_non_reentrant [OF h1 p4, where i = 0 and j = 1] n f1 f2
  have "count_list (emitted exampleLeader (fst ?G4)) CheckAndRecover
          = (if passed (snd ?G4) 0 then 1 else 0)"
    by blast
  then have a: "count_list (emitted exampleLeader (fst ?G4)) CheckAndRecover = 1"
    using f3 by (simp only: if_True)
  from recovery_guard_non_reentrant [OF h1 p3, where i = 0 and b = "Passed Returned" and now = ?t and out = Returned
      and s'' = "fst ?G4" and pcs'' = "snd ?G4" and k = 2 and now' = ?t and out' = Returned]
    f5 f4 f6
  have "recoveryEntrance (fst ?G4) = 0 \<and> released (snd ?G4) 0 \<and>
      inside (snd (gstep 2 ?t Returned (fst ?G4, snd ?G4))) 2 \<and>
      recoveryEntrance (fst (gstep 2 ?t Returned (fst ?G4, snd ?G4))) = 1"
    by blast
  then have b: "recoveryEntrance (fst ?G4) = 0 \<and> released (snd ?G4) 0 \<and>
      inside (snd (gstep 2 ?t Returned ?G4)) 2 \<and>
      recoveryEntrance (fst (gstep 2 ?t Returned ?G4)) = 1"
    by (simp only: prod.collapse)
  show ?thesis
    using a b f1 by blast
qed

subsection \<open>The shutdown wait\<close>

lemma drain_first_poll:
  "drain counter deadline now = (timedOut, t_exit) \<Longrightarrow>
   \<exists>n. t_exit = now + int n * (100 * Millisecond) \<and>
       (timedOut \<longleftrightarrow> counter t_exit \<noteq> 0) \<and>
       (counter t_exit = 0 \<or> deadline \<le> t_exit) \<and>
       (\<forall>j<n. counter (now + int j * (100 * Millisecond)) \<noteq> 0 \<and>
              now + int j * (100 * Millisecond) < deadline)"
proof (induction counter deadline now arbitrary: timedOut t_exit rule: drain.induct)
  case (1 counter deadline now)
  show ?case
  proof (cases "counter now = 0 \<or> deadline \<le> now")
    case True
    then have "t_exit = now" and "timedOut \<longleftrightarrow> counter now \<noteq> 0"
      using "1.prems" by (auto split: if_splits)
    then show ?thesis
      using True by (intro exI [of _ 0]) auto
  next
    case False
    then have r: "drain counter deadline (now + 100 * Millisecond) = (timedOut, t_exit)"
      using "1.prems" by simp
    from False have f: "counter now \<noteq> 0" "\<not> deadline \<le> now"
      by auto
    from "1.IH" [OF f r]
    obtain n where n: "t_exit = now + 100 * Millisecond + int n * (100 * Millisecond)"
      "timedOut \<longleftrightarrow> counter t_exit \<noteq> 0"
      "counter t_exit = 0 \<or> deadline \<le> t_exit"
      "\<forall>j<n. counter (now + 100 * Millisecond + int j * (100 * Millisecond)) \<noteq> 0 \<and>
             now + 100 * Millisecond + int j * (100 * Millisecond) < deadline"
      by blast
    have "counter (now + int j * (100 * Millisecond)) \<noteq> 0 \<and>
          now + int j * (100 * Millisecond) < deadline" if "j < Suc n" for j
    proof (cases j)
      case 0
      then show ?thesis using f by simp
    next
      case (Suc j')
      then have "j' < n" using that by simp
      then show ?thesis
        using n(4) Suc by (simp add: algebra_simps)
    qed
    then show ?thesis
      using n(1,2,3) by (intro exI [of _ "Suc n"]) (simp add: algebra_simps)
  qed
qed

text \<open>
  C8. The SIGTERM branch, started at \<open>now\<close>, sets the terminating flag and, in this
  order, logs the signal, stops the auto-expiration of the discovery metrics, writes
  the audit record, waits, logs a timeout if the wait ended with locks still held, logs
  the shutdown and exits with status 0. The wait reads the lock counter every 100
  milliseconds from \<open>now\<close> on and ends at the first reading \<open>t_exit\<close> at which the
  counter is 0 or the deadline \<open>now\<close> plus the shutdown wait time has come: at every
  earlier reading the counter was not 0 and the deadline had not come. So the process
  exits at once or less than 100 milliseconds after the deadline.
\<close>

theorem onSIGTERM_waits_for_locks:
  assumes "onSIGTERM counter now s = (s', t_exit)"
    and "deadline = now + shutdownWaitTime (Config s)"
  shows "hasReceivedSIGTERM s' = 1 \<and>
         emitted s s' =
           [Logged Info ''Received SIGTERM. Starting shutdown'', StopAutoExpiration,
            AuditOperation ''shutdown'' ''Triggered via SIGTERM''] @
           (if counter t_exit \<noteq> 0
            then [Logged Info ''wait for lock release timed out. Some locks might not have been released.'']
            else []) @
           [Logged Info ''Shutting down orchestrator'', Exit 0] \<and>
         (\<exists>n. t_exit = now + int n * (100 * Millisecond) \<and>
              (counter t_exit = 0 \<or> deadline \<le> t_exit) \<and>
              (\<forall>j<n. counter (now + int j * (100 * Millisecond)) \<noteq> 0 \<and>
                     now + int j * (100 * Millisecond) < deadline)) \<and>
         (t_exit = now \<or> t_exit < deadline + 100 * Millisecond)"
proof -
  obtain timedOut te where d: "drain counter deadline now = (timedOut, te)"
    by (cases "drain counter deadline now") auto
  then have te: "te = t_exit"
    using assms by (simp add: onSIGTERM_def Let_def emit_def split: if_splits)
  have s': "s' = emit [Logged Info ''Shutting down orchestrator'', Exit 0]
      ((if timedOut
        then emit [Logged Info ''wait for lock release timed out. Some locks might not have been released.'']
        else (\<lambda>x. x))
        (emit [StopAutoExpiration, AuditOperation ''shutdown'' ''Triggered via SIGTERM'']
           ((emit [Logged Info ''Received SIGTERM. Starting shutdown''] s)\<lparr>hasReceivedSIGTERM := 1\<rparr>)))"
    using assms d by (simp add: onSIGTERM_def Let_def emit_def split: if_splits)
  from drain_first_poll [OF d] te
  obtain n where n: "t_exit = now + int n * (100 * Millisecond)"
    "timedOut \<longleftrightarrow> counter t_exit \<noteq> 0"
    "counter t_exit = 0 \<or> deadline \<le> t_exit"
    "\<forall>j<n. counter (now + int j * (100 * Millisecond)) \<noteq> 0 \<and>
           now + int j * (100 * Millisecond) < deadline"
    by blast
  have "hasReceivedSIGTERM s' = 1"
    using s' by (simp add: emit_def)
  moreover have "emitted s s' =
           [Logged Info ''Received SIGTERM. Starting shutdown'', StopAutoExpiration,
            AuditOperation ''shutdown'' ''Triggered via SIGTERM''] @
           (if counter t_exit \<noteq> 0
            then [Logged Info ''wait for lock release timed out. Some locks might not have been released.'']
            else []) @
           [Logged Info ''Shutting down orchestrator'', Exit 0]"
    using s' n(2) by (simp add: emit_def emitted_def)
  moreover have "t_exit = now \<or> t_exit < deadline + 100 * Millisecond"
  proof (cases n)
    case 0
    then show ?thesis using n(1) by simp
  next
    case (Suc m)
    then have "now + int m * (100 * Millisecond) < deadline"
      using n(4) by simp
    then show ?thesis
      using n(1) Suc by (simp add: algebra_simps)
  qed
  ultimately show ?thesis
    using n(1,3,4) by blast
qed

text \<open>
  C8 at the example engine, shutdown wait five seconds, signal at second 2000. With the
  three locks released at second 2002 the process exits at second 2002; with the locks
  never released it exits at second 2005.
\<close>

theorem onSIGTERM_waits_for_locks_witness:
  "(\<exists>s'. onSIGTERM (exampleLocks (2002 * Second)) (2000 * Second) exampleEngine
            = (s', 2002 * Second) \<and>
         hasReceivedSIGTERM s' = 1 \<and>
         emitted exampleEngine s' =
           [Logged Info ''Received SIGTERM. Starting shutdown'', StopAutoExpiration,
            AuditOperation ''shutdown'' ''Triggered via SIGTERM'',
            Logged Info ''Shutting down orchestrator'', Exit 0]) \<and>
   (\<exists>s'. onSIGTERM (\<lambda>t. 3) (2000 * Second) exampleEngine = (s', 2005 * Second) \<and>
         hasReceivedSIGTERM s' = 1 \<and>
         emitted exampleEngine s' =
           [Logged Info ''Received SIGTERM. Starting shutdown'', StopAutoExpiration,
            AuditOperation ''shutdown'' ''Triggered via SIGTERM'',
            Logged Info ''wait for lock release timed out. Some locks might not have been released.'',
            Logged Info ''Shutting down orchestrator'', Exit 0])"
proof -
  have d: "2005 * Second = 2000 * Second + shutdownWaitTime (Config exampleEngine)"
    by (simp add: exampleEngine_def ContinuousDiscovery_setup_def exampleConfig_def)
  have "snd (onSIGTERM (exampleLocks (2002 * Second)) (2000 * Second) exampleEngine)
          = 2002 * Second"
    by code_simp
  then obtain s1 where s1: "onSIGTERM (exampleLocks (2002 * Second)) (2000 * Second) exampleEngine
      = (s1, 2002 * Second)"
    by (cases "onSIGTERM (exampleLocks (2002 * Second)) (2000 * Second) exampleEngine") auto
  have z1: "exampleLocks (2002 * Second) (2002 * Second) = 0"
    by (simp add: exampleLocks_def)
  have "snd (onSIGTERM (\<lambda>t. 3) (2000 * Second) exampleEngine) = 2005 * Second"
    by code_simp
  then obtain s2 where s2: "onSIGTERM (\<lambda>t. 3) (2000 * Second) exampleEngine
      = (s2, 2005 * Second)"
    by (cases "onSIGTERM (\<lambda>t. 3) (2000 * Second) exampleEngine") auto
  show ?thesis
    using onSIGTERM_waits_for_locks [OF s1 d] onSIGTERM_waits_for_locks [OF s2 d] s1 s2 z1
    by simp
qed

end
